theory Spec2Isabelle
  imports Complex_Main "HOL-Library.Option_ord" "HOL-Library.Multiset" "HOL-Library.Monad_Syntax"
begin

section \<open>Tensors\<close>

text \<open>
  A tensor of shape [batch, tokens, channels] is a list of batch elements, each a list
  of token rows, each a list of channel entries. Entries are real numbers: rounding,
  NaN and infinities of the floating-point types are outside this model. A similarity
  score is a \<open>real option\<close>, where \<open>None\<close> stands for \<open>-math.inf\<close>; the order of
  \<open>HOL-Library.Option_ord\<close> puts \<open>None\<close> below every \<open>Some a\<close>.
\<close>

type_synonym vec = "real list"
type_synonym mat = "vec list"
type_synonym tensor = "mat list"
type_synonym score = "real option"

definition has_shape :: "nat \<Rightarrow> nat \<Rightarrow> nat \<Rightarrow> tensor \<Rightarrow> bool" where
  "has_shape B N C x \<longleftrightarrow>
     length x = B \<and> list_all (\<lambda>m. length m = N \<and> list_all (\<lambda>v. length v = C) m) x"

text \<open>\<open>x.shape[1]\<close> and \<open>x.shape[2]\<close>, read off the first batch element and the first row.\<close>

definition shape1 :: "tensor \<Rightarrow> nat" where
  "shape1 x = (case x of [] \<Rightarrow> 0 | m # _ \<Rightarrow> length m)"

definition shape2 :: "tensor \<Rightarrow> nat" where
  "shape2 x = (case concat x of [] \<Rightarrow> 0 | v # _ \<Rightarrow> length v)"

text \<open>The reductions \<open>torch.Tensor.scatter_reduce\<close> accepts as \<open>reduce=mode\<close>.\<close>

datatype mode = ModeSum | ModeProd | ModeMean | ModeAmax | ModeAmin

type_synonym merge_fn = "tensor \<Rightarrow> mode \<Rightarrow> tensor option"
type_synonym unmerge_fn = "tensor \<Rightarrow> tensor option"

text \<open>\<open>def do_nothing(x, mode=None): return x\<close>\<close>

definition do_nothing :: "'a \<Rightarrow> mode option \<Rightarrow> 'a" where
  "do_nothing x mode = x"

definition do_nothing_pair :: "merge_fn \<times> unmerge_fn" where
  "do_nothing_pair = (\<lambda>x mode. Some (do_nothing x (Some mode)), \<lambda>x. Some (do_nothing x None))"

section \<open>Tensor primitives, on one batch element\<close>

text \<open>\<open>x[..., ::2, :]\<close> and \<open>x[..., 1::2, :]\<close>\<close>

fun evens :: "'a list \<Rightarrow> 'a list" where
  "evens [] = []"
| "evens [x] = [x]"
| "evens (x # y # xs) = x # evens xs"

fun odds :: "'a list \<Rightarrow> 'a list" where
  "odds [] = []"
| "odds [x] = []"
| "odds (x # y # xs) = y # odds xs"

text \<open>\<open>metric / metric.norm(dim=-1, keepdim=True)\<close>\<close>

definition norm_row :: "vec \<Rightarrow> real" where
  "norm_row v = sqrt (\<Sum>a\<leftarrow>v. a * a)"

definition normalize :: "mat \<Rightarrow> mat" where
  "normalize m = map (\<lambda>v. map (\<lambda>a. a / norm_row v) v) m"

text \<open>\<open>a @ b.transpose(-1, -2)\<close>\<close>

definition dot :: "vec \<Rightarrow> vec \<Rightarrow> real" where
  "dot u w = (\<Sum>(a, b)\<leftarrow>zip u w. a * b)"

definition matmul_t :: "mat \<Rightarrow> mat \<Rightarrow> real list list" where
  "matmul_t a b = map (\<lambda>u. map (dot u) b) a"

text \<open>\<open>scores[..., 0, :] = -math.inf\<close> and \<open>scores[..., :, 0] = -math.inf\<close>\<close>

definition mask_class :: "score list list \<Rightarrow> score list list" where
  "mask_class scores = (case scores of [] \<Rightarrow> [] | row # rest \<Rightarrow> map (\<lambda>_. None) row # rest)"

definition mask_distill :: "score list list \<Rightarrow> score list list" where
  "mask_distill scores = map (\<lambda>row. row[0 := None]) scores"

text \<open>
  \<open>scores.max(dim=-1)\<close>: the largest entry of each row and the index of its first
  occurrence.
\<close>

definition max_val :: "score list \<Rightarrow> score" where
  "max_val row = fold max (tl row) (hd row)"

definition max_idx :: "score list \<Rightarrow> nat" where
  "max_idx row = length (takeWhile (\<lambda>a. a \<noteq> max_val row) row)"


fun insert_desc :: "(nat \<Rightarrow> score) \<Rightarrow> nat \<Rightarrow> nat list \<Rightarrow> nat list" where
  "insert_desc f x [] = [x]"
| "insert_desc f x (y # ys) = (if f y \<le> f x then x # y # ys else y # insert_desc f x ys)"

definition argsort_desc :: "score list \<Rightarrow> nat list" where
  "argsort_desc keys = foldr (insert_desc (\<lambda>i. keys ! i)) [0..<length keys] []"

text \<open>\<open>xs.gather(dim=-2, index=...)\<close> with an index expanded over the channels.\<close>

definition gather :: "'a list \<Rightarrow> nat list \<Rightarrow> 'a list" where
  "gather xs index = map (\<lambda>i. xs ! i) index"

text \<open>
  \<open>dst.scatter_reduce(-2, index, src, reduce=mode)\<close> (\<open>include_self=True\<close>): row \<open>j\<close>
  of the result reduces \<open>dst[j]\<close> with every \<open>src[i]\<close> whose \<open>index[i] = j\<close>; the mean
  divides the sum by the number of rows reduced, \<open>dst[j]\<close> included.
\<close>

definition reduce_rows :: "mode \<Rightarrow> vec \<Rightarrow> vec list \<Rightarrow> vec" where
  "reduce_rows mode d grp =
     (case mode of
        ModeSum \<Rightarrow> foldl (map2 (+)) d grp
      | ModeProd \<Rightarrow> foldl (map2 (*)) d grp
      | ModeMean \<Rightarrow> map (\<lambda>a. a / real (Suc (length grp))) (foldl (map2 (+)) d grp)
      | ModeAmax \<Rightarrow> foldl (map2 max) d grp
      | ModeAmin \<Rightarrow> foldl (map2 min) d grp)"

definition group_of :: "nat \<Rightarrow> nat list \<Rightarrow> 'a list \<Rightarrow> 'a list" where
  "group_of j index src = map snd (filter (\<lambda>p. fst p = j) (zip index src))"

definition scatter_reduce :: "mat \<Rightarrow> nat list \<Rightarrow> mat \<Rightarrow> mode \<Rightarrow> mat" where
  "scatter_reduce dst index src mode =
     map (\<lambda>j. reduce_rows mode (dst ! j) (group_of j index src)) [0..<length dst]"

text \<open>\<open>out.scatter_(dim=-2, index=..., src=...)\<close>: row \<open>index[i]\<close> of \<open>out\<close> becomes \<open>src[i]\<close>.\<close>

definition scatter :: "'a list \<Rightarrow> nat list \<Rightarrow> 'a list \<Rightarrow> 'a list" where
  "scatter out index src = fold (\<lambda>(i, v) acc. acc[i := v]) (zip index src) out"

section \<open>bipartite_soft_matching\<close>

record bsm_idx =
  unm_idx :: "nat list"
  src_idx :: "nat list"
  dst_idx :: "nat list"

text \<open>The index tensors of one batch element (the body of \<open>with torch.no_grad()\<close>).\<close>

definition bsm_scores :: "bool \<Rightarrow> bool \<Rightarrow> mat \<Rightarrow> score list list" where
  "bsm_scores class_token distill_token m =
     (let metric = normalize m;
          a = evens metric;
          b = odds metric;
          scores = map (map Some) (matmul_t a b);
          scores = (if class_token then mask_class scores else scores)
      in if distill_token then mask_distill scores else scores)"

definition bsm_indices_with ::
  "(score list \<Rightarrow> nat list) \<Rightarrow> bool \<Rightarrow> bool \<Rightarrow> nat \<Rightarrow> mat \<Rightarrow> bsm_idx" where
  "bsm_indices_with argsort class_token distill_token r m =
     (let scores = bsm_scores class_token distill_token m;
          node_max = map max_val scores;
          node_idx = map max_idx scores;
          edge_idx = argsort node_max;
          unm = drop r edge_idx;
          src = take r edge_idx;
          dst = gather node_idx src
      in \<lparr>unm_idx = (if class_token then sort unm else unm), src_idx = src, dst_idx = dst\<rparr>)"

definition bsm_indices :: "bool \<Rightarrow> bool \<Rightarrow> nat \<Rightarrow> mat \<Rightarrow> bsm_idx" where
  "bsm_indices = bsm_indices_with argsort_desc"

text \<open>
  \<open>merge\<close> and \<open>unmerge\<close> on one batch element. The closures capture the index
  tensors, \<open>r\<close>, \<open>distill_token\<close> and \<open>metric.shape[1]\<close>.
\<close>

text \<open>\<open>torch.cat([unm[:, :1], dst[:, :1], unm[:, 1:], dst[:, 1:]], dim=1)\<close>\<close>

definition cat_distill :: "'a list \<Rightarrow> 'a list \<Rightarrow> 'a list" where
  "cat_distill unm dst = take 1 unm @ take 1 dst @ drop 1 unm @ drop 1 dst"

definition bipartite_merge1 :: "bool \<Rightarrow> bsm_idx \<Rightarrow> mat \<Rightarrow> mode \<Rightarrow> mat" where
  "bipartite_merge1 distill_token ix x mode =
     (let src = evens x;
          dst = odds x;
          unm = gather src (unm_idx ix);
          src = gather src (src_idx ix);
          dst = scatter_reduce dst (dst_idx ix) src mode
      in if distill_token then cat_distill unm dst else unm @ dst)"

definition assign_odds :: "'a list \<Rightarrow> 'a list \<Rightarrow> 'a list" where
  "assign_odds out dst = scatter out (map (\<lambda>j. 2 * j + 1) [0..<length dst]) dst"

text \<open>
  \<open>unmerge\<close>: the three writes into the buffer \<open>out\<close>, and the buffer
  \<open>torch.zeros(n, metric.shape[1], c)\<close> they start from.
\<close>

definition bipartite_unmerge_into :: "'a list \<Rightarrow> bsm_idx \<Rightarrow> 'a list \<Rightarrow> 'a list" where
  "bipartite_unmerge_into out ix x =
     (let unm_len = length (unm_idx ix);
          unm = take unm_len x;
          dst = drop unm_len x;
          src = gather dst (dst_idx ix);
          out = assign_odds out dst;
          out = scatter out (map (\<lambda>i. 2 * i) (unm_idx ix)) unm
      in scatter out (map (\<lambda>i. 2 * i) (src_idx ix)) src)"

definition bipartite_unmerge1 :: "nat \<Rightarrow> nat \<Rightarrow> bsm_idx \<Rightarrow> mat \<Rightarrow> mat" where
  "bipartite_unmerge1 t c ix x = bipartite_unmerge_into (replicate t (replicate c 0)) ix x"

text \<open>
  The closures on whole tensors. The index tensors are built for the batch size and
  token count of \<open>metric\<close>; a tensor of another batch size or token count is outside the
  operators' contract and is rejected (\<open>None\<close>), where torch raises from \<open>expand\<close>,
  \<open>gather\<close> or the slice assignment, or broadcasts a size-one dimension.
\<close>

definition bipartite_merge :: "nat \<Rightarrow> bool \<Rightarrow> bsm_idx list \<Rightarrow> merge_fn" where
  "bipartite_merge t distill_token ixs x mode =
     (if has_shape (length ixs) t (shape2 x) x
      then Some (map2 (\<lambda>ix xb. bipartite_merge1 distill_token ix xb mode) ixs x)
      else None)"

definition bipartite_unmerge :: "nat \<Rightarrow> nat \<Rightarrow> bsm_idx list \<Rightarrow> unmerge_fn" where
  "bipartite_unmerge t r ixs x =
     (if has_shape (length ixs) (t - r) (shape2 x) x
      then Some (map2 (\<lambda>ix xb. bipartite_unmerge1 t (shape2 x) ix xb) ixs x)
      else None)"

definition bipartite_soft_matching_with ::
  "(score list \<Rightarrow> nat list) \<Rightarrow> tensor \<Rightarrow> int \<Rightarrow> bool \<Rightarrow> bool \<Rightarrow> merge_fn \<times> unmerge_fn" where
  "bipartite_soft_matching_with argsort metric r class_token distill_token =
     (let protected = (if class_token then 1 else 0) + (if distill_token then 1 else 0);
          t = shape1 metric;
          r = min r ((int t - protected) div 2)
      in if r \<le> 0 then do_nothing_pair
         else let ixs = map (bsm_indices_with argsort class_token distill_token (nat r)) metric
              in (bipartite_merge t distill_token ixs, bipartite_unmerge t (nat r) ixs))"

text \<open>The constructor with the stable order of ties.\<close>

definition bipartite_soft_matching ::
  "tensor \<Rightarrow> int \<Rightarrow> bool \<Rightarrow> bool \<Rightarrow> merge_fn \<times> unmerge_fn" where
  "bipartite_soft_matching = bipartite_soft_matching_with argsort_desc"

section \<open>kth_bipartite_soft_matching\<close>

text \<open>
  \<open>split\<close>: \<open>x[:, :t_rnd, :].view(B, -1, k, C)\<close> cuts the first \<open>t_rnd\<close> tokens into
  groups of \<open>k\<close>; the first \<open>k - 1\<close> rows of every group, flattened, are \<open>a\<close> and the
  last row of every group is \<open>b\<close>.
\<close>

definition view_groups :: "nat \<Rightarrow> 'a list \<Rightarrow> 'a list list" where
  "view_groups k x = map (\<lambda>i. take k (drop (i * k) x)) [0..<length x div k]"

definition kth_split :: "nat \<Rightarrow> 'a list \<Rightarrow> 'a list \<times> 'a list" where
  "kth_split k x =
     (let t_rnd = (length x div k) * k;
          g = view_groups k (take t_rnd x)
      in (concat (map (take (k - 1)) g), map (\<lambda>grp. grp ! (k - 1)) g))"

definition kth_indices :: "nat \<Rightarrow> mat \<Rightarrow> nat list" where
  "kth_indices k m =
     (let metric = normalize m;
          (a, b) = kth_split k metric;
          scores = map (map Some) (matmul_t a b)
      in map max_idx scores)"

definition kth_merge1 :: "nat \<Rightarrow> nat list \<Rightarrow> mat \<Rightarrow> mode \<Rightarrow> mat" where
  "kth_merge1 k dst_index x mode =
     (let (src, dst) = kth_split k x in scatter_reduce dst dst_index src mode)"

definition kth_unmerge1 :: "nat \<Rightarrow> nat list \<Rightarrow> mat \<Rightarrow> mat" where
  "kth_unmerge1 k dst_index x =
     (let dst = x;
          src = gather dst dst_index;
          src = view_groups (k - 1) src
      in concat (map2 (\<lambda>s d. s @ [d]) src dst))"

definition kth_merge :: "nat \<Rightarrow> nat \<Rightarrow> nat list list \<Rightarrow> merge_fn" where
  "kth_merge k t ixs x mode =
     (if has_shape (length ixs) t (shape2 x) x \<and> 0 < shape2 x
      then Some (map2 (\<lambda>ix xb. kth_merge1 k ix xb mode) ixs x)
      else None)"

definition kth_unmerge :: "nat \<Rightarrow> nat \<Rightarrow> nat list list \<Rightarrow> unmerge_fn" where
  "kth_unmerge k t ixs x =
     (if has_shape (length ixs) (t div k) (shape2 x) x \<and> 0 < shape2 x
      then Some (map2 (\<lambda>ix xb. kth_unmerge1 k ix xb) ixs x)
      else None)"

text \<open>
  The constructor raises (\<open>None\<close>) where torch does: \<open>view\<close> with an inferred dimension
  on a tensor with an empty batch or no channels, and \<open>scores.max(dim=-1)\<close> over an empty
  dimension, which is the case when there are fewer than \<open>k\<close> tokens.
\<close>

definition kth_bipartite_soft_matching :: "tensor \<Rightarrow> int \<Rightarrow> (merge_fn \<times> unmerge_fn) option" where
  "kth_bipartite_soft_matching metric k =
     (if k \<le> 1 then Some do_nothing_pair
      else if metric = [] \<or> shape2 metric = 0 then None
      else if shape1 metric div nat k = 0 then None
      else let ixs = map (kth_indices (nat k)) metric
           in Some (kth_merge (nat k) (shape1 metric) ixs, kth_unmerge (nat k) (shape1 metric) ixs))"

section \<open>random_bipartite_soft_matching\<close>

record rand_idx =
  a_idx :: "nat list"
  b_idx :: "nat list"
  rdst_idx :: "nat list"

text \<open>
  \<open>torch.rand(B, N, 1).argsort(dim=1)\<close>: the random draw is an argument, \<open>rnd b i\<close>
  being the key drawn for position \<open>i\<close> of batch element \<open>b\<close>.
\<close>

definition argsort_asc :: "real list \<Rightarrow> nat list" where
  "argsort_asc keys = sort_key (\<lambda>i. keys ! i) [0..<length keys]"

definition random_split :: "rand_idx \<Rightarrow> 'a list \<Rightarrow> 'a list \<times> 'a list" where
  "random_split ix x = (gather x (a_idx ix), gather x (b_idx ix))"

definition random_indices :: "nat \<Rightarrow> nat \<Rightarrow> real list \<Rightarrow> mat \<Rightarrow> rand_idx" where
  "random_indices n r keys m =
     (let rand_index = argsort_asc keys;
          ab = \<lparr>a_idx = take r rand_index, b_idx = drop r rand_index, rdst_idx = []\<rparr>;
          metric = normalize m;
          (a, b) = random_split ab metric;
          scores = map (map Some) (matmul_t a b)
      in ab\<lparr>rdst_idx := map max_idx scores\<rparr>)"

definition random_merge1 :: "rand_idx \<Rightarrow> mat \<Rightarrow> mode \<Rightarrow> mat" where
  "random_merge1 ix x mode =
     (let (src, dst) = random_split ix x in scatter_reduce dst (rdst_idx ix) src mode)"

definition random_unmerge1 :: "nat \<Rightarrow> nat \<Rightarrow> rand_idx \<Rightarrow> mat \<Rightarrow> mat" where
  "random_unmerge1 n c ix x =
     (let dst = x;
          src = gather dst (rdst_idx ix);
          out = replicate n (replicate c 0);
          out = scatter out (a_idx ix) src
      in scatter out (b_idx ix) dst)"

definition random_merge :: "nat \<Rightarrow> rand_idx list \<Rightarrow> merge_fn" where
  "random_merge n ixs x mode =
     (if has_shape (length ixs) n (shape2 x) x
      then Some (map2 (\<lambda>ix xb. random_merge1 ix xb mode) ixs x)
      else None)"

definition random_unmerge :: "nat \<Rightarrow> nat \<Rightarrow> rand_idx list \<Rightarrow> unmerge_fn" where
  "random_unmerge n r ixs x =
     (if has_shape (length ixs) (n - r) (shape2 x) x
      then Some (map2 (\<lambda>ix xb. random_unmerge1 n (shape2 x) ix xb) ixs x)
      else None)"

text \<open>
  With \<open>r > N\<close> the \<open>expand\<close> of \<open>split\<close> raises, and with \<open>r = N\<close> the destination set is
  empty and \<open>scores.max(dim=-1)\<close> raises.
\<close>

definition random_bipartite_soft_matching ::
  "(nat \<Rightarrow> nat \<Rightarrow> real) \<Rightarrow> tensor \<Rightarrow> int \<Rightarrow> (merge_fn \<times> unmerge_fn) option" where
  "random_bipartite_soft_matching rnd metric r =
     (if r \<le> 0 then Some do_nothing_pair
      else let n = shape1 metric in
        if n \<le> nat r then None
        else let ixs = map (\<lambda>(b, m). random_indices n (nat r) (map (rnd b) [0..<n]) m)
                           (enumerate 0 metric)
             in Some (random_merge n ixs, random_unmerge n (nat r) ixs))"

section \<open>merge_wavg and merge_source\<close>

text \<open>
  Elementwise arithmetic of two tensors whose batch sizes and token counts agree; on the
  channel dimension a size-one row is broadcast, as for \<open>x * size\<close> with \<open>size\<close> of shape
  [B, N, 1]. Other shapes are rejected (\<open>None\<close>). Division by a zero entry, which gives
  an infinity or NaN in floating point, is outside the model.
\<close>

definition bcast_row :: "(real \<Rightarrow> real \<Rightarrow> real) \<Rightarrow> vec \<Rightarrow> vec \<Rightarrow> vec" where
  "bcast_row f u v =
     (if length u = length v then map2 f u v
      else if length v = 1 then map (\<lambda>a. f a (hd v)) u
      else map (f (hd u)) v)"

definition bcast_ok :: "tensor \<Rightarrow> tensor \<Rightarrow> bool" where
  "bcast_ok x y \<longleftrightarrow>
     list_all2 (list_all2 (\<lambda>u v. length u = length v \<or> length u = 1 \<or> length v = 1)) x y"

definition bcast_op :: "(real \<Rightarrow> real \<Rightarrow> real) \<Rightarrow> tensor \<Rightarrow> tensor \<Rightarrow> tensor option" where
  "bcast_op f x y = (if bcast_ok x y then Some (map2 (map2 (bcast_row f)) x y) else None)"

text \<open>\<open>torch.ones_like(x[..., 0, None])\<close>: indexing channel 0 raises when there is none.\<close>

definition ones_like_col :: "tensor \<Rightarrow> tensor option" where
  "ones_like_col x =
     (if list_all (list_all (\<lambda>v. v \<noteq> [])) x then Some (map (map (\<lambda>v. [1])) x) else None)"

definition merge_wavg :: "merge_fn \<Rightarrow> tensor \<Rightarrow> tensor option \<Rightarrow> (tensor \<times> tensor) option" where
  "merge_wavg merge x sz =
     do {
       sz \<leftarrow> (case sz of None \<Rightarrow> ones_like_col x | Some s \<Rightarrow> Some s);
       xs \<leftarrow> bcast_op (*) x sz;
       x \<leftarrow> merge xs ModeSum;
       sz \<leftarrow> merge sz ModeSum;
       x \<leftarrow> bcast_op (/) x sz;
       Some (x, sz)
     }"

text \<open>\<open>torch.eye(t)[None, ...].expand(n, t, t)\<close>\<close>

definition eye :: "nat \<Rightarrow> mat" where
  "eye t = map (\<lambda>i. map (\<lambda>j. if i = j then 1 else 0) [0..<t]) [0..<t]"

definition merge_source :: "merge_fn \<Rightarrow> tensor \<Rightarrow> tensor option \<Rightarrow> tensor option" where
  "merge_source merge x source =
     (let source = (case source of
                      None \<Rightarrow> replicate (length x) (eye (shape1 x))
                    | Some s \<Rightarrow> s)
      in merge source ModeAmax)"

text \<open>What the constructor guarantees of the index tensors of one batch element.\<close>

definition bsm_valid :: "nat \<Rightarrow> nat \<Rightarrow> bsm_idx \<Rightarrow> bool" where
  "bsm_valid t r ix \<longleftrightarrow>
     mset (unm_idx ix) + mset (src_idx ix) = mset [0..<(t + 1) div 2]
     \<and> length (src_idx ix) = r \<and> length (dst_idx ix) = r
     \<and> list_all (\<lambda>d. d < t div 2) (dst_idx ix)"

text \<open>
  The rows \<open>unmerge\<close> writes, in the order of its three writes (\<open>out[..., 1::2, :] = dst\<close>,
  then the scatter at \<open>2 * unm_idx\<close>, then the scatter at \<open>2 * src_idx\<close>), and the values
  written there.
\<close>

definition unmerge_targets :: "nat \<Rightarrow> bsm_idx \<Rightarrow> nat list" where
  "unmerge_targets n_dst ix =
     map (\<lambda>j. 2 * j + 1) [0..<n_dst] @ map (\<lambda>i. 2 * i) (unm_idx ix) @ map (\<lambda>i. 2 * i) (src_idx ix)"

definition unmerge_values :: "bsm_idx \<Rightarrow> 'a list \<Rightarrow> 'a list" where
  "unmerge_values ix x =
     drop (length (unm_idx ix)) x @ take (length (unm_idx ix)) x
       @ gather (drop (length (unm_idx ix)) x) (dst_idx ix)"

section \<open>Groups of merged tokens\<close>

text \<open>
  A direct account of which input tokens are folded into which output token. A group is
  the list of input positions reduced into one output row, the receiving position first;
  \<open>merge_by_groups\<close> reduces every group with the mode's reduction. \<open>bsm_groups\<close> lists
  the groups of the bipartite operator in the order of its output rows: an unmerged
  source token alone, and a destination token with the source tokens matched to it.
\<close>

definition merge_by_groups :: "nat list list \<Rightarrow> mat \<Rightarrow> mode \<Rightarrow> mat" where
  "merge_by_groups G x mode = map (\<lambda>g. reduce_rows mode (x ! hd g) (map ((!) x) (tl g))) G"

definition bsm_groups :: "bool \<Rightarrow> nat \<Rightarrow> bsm_idx \<Rightarrow> nat list list" where
  "bsm_groups distill_token t ix =
     (let unm = map (\<lambda>u. [2 * u]) (unm_idx ix);
          dst = map (\<lambda>j. (2 * j + 1) # map (\<lambda>i. 2 * i) (group_of j (dst_idx ix) (src_idx ix)))
                  [0..<t div 2]
      in if distill_token then cat_distill unm dst else unm @ dst)"

definition groups_ok :: "nat \<Rightarrow> nat list list \<Rightarrow> bool" where
  "groups_ok N G \<longleftrightarrow> list_all (\<lambda>g. g \<noteq> [] \<and> list_all (\<lambda>i. i < N) g) G"

text \<open>
  The groups of the merge returned by \<open>bipartite_soft_matching\<close>, one list of groups per
  batch element: every token alone when the constructor returns \<open>do_nothing\<close>.
\<close>

definition bipartite_groups :: "tensor \<Rightarrow> int \<Rightarrow> bool \<Rightarrow> bool \<Rightarrow> nat list list list" where
  "bipartite_groups metric r class_token distill_token =
     (let protected = (if class_token then 1 else 0) + (if distill_token then 1 else 0);
          t = shape1 metric;
          r = min r ((int t - protected) div 2)
      in if r \<le> 0 then map (\<lambda>m. map (\<lambda>i. [i]) [0..<t]) metric
         else map (\<lambda>m. bsm_groups distill_token t (bsm_indices class_token distill_token (nat r) m))
                metric)"

section \<open>Facts about the primitives\<close>

lemma bsm_indices_unfold:
  "bsm_indices class_token distill_token r m =
     (let scores = bsm_scores class_token distill_token m;
          node_max = map max_val scores;
          node_idx = map max_idx scores;
          edge_idx = argsort_desc node_max;
          unm = drop r edge_idx;
          src = take r edge_idx;
          dst = gather node_idx src
      in \<lparr>unm_idx = (if class_token then sort unm else unm), src_idx = src, dst_idx = dst\<rparr>)"
  by (simp only: bsm_indices_def bsm_indices_with_def)

lemma bipartite_soft_matching_unfold:
  "bipartite_soft_matching metric r class_token distill_token =
     (let protected = (if class_token then 1 else 0) + (if distill_token then 1 else 0);
          t = shape1 metric;
          r = min r ((int t - protected) div 2)
      in if r \<le> 0 then do_nothing_pair
         else let ixs = map (bsm_indices class_token distill_token (nat r)) metric
              in (bipartite_merge t distill_token ixs, bipartite_unmerge t (nat r) ixs))"
  by (simp only: bipartite_soft_matching_def bipartite_soft_matching_with_def bsm_indices_def)

lemma length_evens: "length (evens xs) = (length xs + 1) div 2"
  by (induction xs rule: evens.induct) auto

lemma length_odds: "length (odds xs) = length xs div 2"
  by (induction xs rule: odds.induct) auto

lemma evens_nth: "i < length (evens xs) \<Longrightarrow> evens xs ! i = xs ! (2 * i)"
proof (induction xs arbitrary: i rule: evens.induct)
  case (3 x y xs)
  then show ?case by (cases i) auto
qed auto

lemma odds_nth: "i < length (odds xs) \<Longrightarrow> odds xs ! i = xs ! (2 * i + 1)"
proof (induction xs arbitrary: i rule: odds.induct)
  case (3 x y xs)
  then show ?case by (cases i) auto
qed auto

lemma set_evens: "set (evens xs) \<subseteq> set xs"
  by (induction xs rule: evens.induct) auto

lemma set_odds: "set (odds xs) \<subseteq> set xs"
  by (induction xs rule: odds.induct) auto

lemma evens_map: "evens (map f xs) = map f (evens xs)"
  by (induction xs rule: evens.induct) auto

lemma odds_map: "odds (map f xs) = map f (odds xs)"
  by (induction xs rule: odds.induct) auto

lemma sum_list_evens_odds:
  fixes f :: "'a \<Rightarrow> real"
  shows "(\<Sum>x\<leftarrow>evens xs. f x) + (\<Sum>x\<leftarrow>odds xs. f x) = (\<Sum>x\<leftarrow>xs. f x)"
  by (induction xs rule: evens.induct) auto

lemma mset_insert_desc: "mset (insert_desc f x ys) = add_mset x (mset ys)"
  by (induction ys) auto

lemma mset_foldr_insert_desc: "mset (foldr (insert_desc f) xs []) = mset xs"
  by (induction xs) (auto simp: mset_insert_desc)

lemma mset_argsort_desc: "mset (argsort_desc keys) = mset [0..<length keys]"
  unfolding argsort_desc_def by (rule mset_foldr_insert_desc)

lemma length_argsort_desc: "length (argsort_desc keys) = length keys"
  using mset_argsort_desc [of keys] by (metis length_upt mset_eq_length minus_nat.diff_0)

lemma set_argsort_desc: "set (argsort_desc keys) = {0..<length keys}"
  using mset_argsort_desc [of keys] by (metis mset_eq_setD set_upt)

lemma distinct_argsort_desc: "distinct (argsort_desc keys)"
  using mset_argsort_desc [of keys] by (metis distinct_upt mset_eq_imp_distinct_iff)

lemma set_insert_desc: "set (insert_desc f x ys) = insert x (set ys)"
  by (induction ys) auto

lemma sorted_insert_desc:
  "sorted_wrt (\<lambda>a b. f b \<le> f a) ys \<Longrightarrow> sorted_wrt (\<lambda>a b. f b \<le> f a) (insert_desc f x ys)"
  by (induction ys) (auto simp: set_insert_desc)

lemma sorted_argsort_desc:
  "sorted_wrt (\<lambda>a b. keys ! b \<le> keys ! a) (argsort_desc keys)"
proof -
  have "sorted_wrt (\<lambda>a b. f b \<le> f a) (foldr (insert_desc f) xs [])" for f xs
    by (induction xs) (auto intro: sorted_insert_desc)
  then show ?thesis unfolding argsort_desc_def .
qed

lemma max_val_Max: "row \<noteq> [] \<Longrightarrow> max_val row = Max (set row)"
proof (cases row)
  case (Cons a list)
  then show ?thesis using Max.set_eq_fold [of a list] by (simp add: max_val_def)
qed simp

lemma max_val_in: "row \<noteq> [] \<Longrightarrow> max_val row \<in> set row"
  by (simp add: max_val_Max)

lemma max_val_ge: "a \<in> set row \<Longrightarrow> a \<le> max_val row"
  by (cases "row = []") (auto simp: max_val_Max)

lemma first_index:
  "x \<in> set xs \<Longrightarrow>
     length (takeWhile (\<lambda>a. a \<noteq> x) xs) < length xs \<and> xs ! length (takeWhile (\<lambda>a. a \<noteq> x) xs) = x"
  by (induction xs) auto

lemma max_idx_less: "row \<noteq> [] \<Longrightarrow> max_idx row < length row"
  unfolding max_idx_def using first_index [OF max_val_in] by blast

lemma max_idx_nth: "row \<noteq> [] \<Longrightarrow> row ! max_idx row = max_val row"
  unfolding max_idx_def using first_index [OF max_val_in] by blast

section \<open>Void reductions\<close>

text \<open>
  Claim C8. Whenever the reduction is void, the constructor returns the identity pair
  and does not raise: for \<open>bipartite_soft_matching\<close> when \<open>r\<close>, clamped to half the
  unprotected tokens, is at most 0; for \<open>random_bipartite_soft_matching\<close> when \<open>r \<le> 0\<close>;
  for \<open>kth_bipartite_soft_matching\<close> when \<open>k \<le> 1\<close>. Both returned functions return
  their input unchanged, for every input tensor and every mode.
\<close>

theorem void_reduction_identity:
  "(min r ((int (shape1 metric) - ((if class_token then 1 else 0) + (if distill_token then 1 else 0))) div 2) \<le> 0 \<longrightarrow>
      (\<exists>mg um. bipartite_soft_matching metric r class_token distill_token = (mg, um)
         \<and> (\<forall>x mode. mg x mode = Some x) \<and> (\<forall>x. um x = Some x)))
   \<and> (r' \<le> 0 \<longrightarrow>
      (\<exists>mg um. random_bipartite_soft_matching rnd metric r' = Some (mg, um)
         \<and> (\<forall>x mode. mg x mode = Some x) \<and> (\<forall>x. um x = Some x)))
   \<and> (k \<le> 1 \<longrightarrow>
      (\<exists>mg um. kth_bipartite_soft_matching metric k = Some (mg, um)
         \<and> (\<forall>x mode. mg x mode = Some x) \<and> (\<forall>x. um x = Some x)))"
  by (simp add: bipartite_soft_matching_unfold random_bipartite_soft_matching_def
      kth_bipartite_soft_matching_def do_nothing_pair_def do_nothing_def Let_def)

theorem void_reduction_identity_witness:
  "(\<exists>mg um. bipartite_soft_matching [[[1], [2], [3]]] 5 True True = (mg, um)
         \<and> (\<forall>x mode. mg x mode = Some x) \<and> (\<forall>x. um x = Some x))
   \<and> (\<exists>mg um. random_bipartite_soft_matching (\<lambda>b i. 0) [[[1], [2], [3]]] 0 = Some (mg, um)
         \<and> (\<forall>x mode. mg x mode = Some x) \<and> (\<forall>x. um x = Some x))
   \<and> (\<exists>mg um. kth_bipartite_soft_matching [[[1], [2], [3]]] 1 = Some (mg, um)
         \<and> (\<forall>x mode. mg x mode = Some x) \<and> (\<forall>x. um x = Some x))"
  using void_reduction_identity [where r = 5 and metric = "[[[1], [2], [3]]]"
      and class_token = True and distill_token = True and r' = 0 and rnd = "\<lambda>b i. 0" and k = 1]
  by (simp add: shape1_def)

lemma has_shape_iff:
  "has_shape B N C x \<longleftrightarrow> length x = B \<and> (\<forall>m\<in>set x. length m = N \<and> (\<forall>v\<in>set m. length v = C))"
  by (auto simp: has_shape_def list_all_iff)

lemma has_shape_shape2: "has_shape B N C x \<Longrightarrow> has_shape B N (shape2 x) x"
proof (cases "concat x")
  case Nil
  then show "has_shape B N C x \<Longrightarrow> has_shape B N (shape2 x) x"
    by (auto simp: has_shape_iff)
next
  case (Cons v vs)
  assume h: "has_shape B N C x"
  have "v \<in> set (concat x)" using Cons by simp
  then have "length v = C" using h by (auto simp: has_shape_iff)
  then show "has_shape B N (shape2 x) x" using h Cons by (simp add: shape2_def)
qed

lemma has_shape_shape1: "has_shape B N C x \<Longrightarrow> 0 < B \<Longrightarrow> shape1 x = N"
  by (cases x) (auto simp: has_shape_iff shape1_def)

lemma length_foldl_map2:
  "\<forall>g\<in>set grp. length g = length d \<Longrightarrow> length (foldl (map2 f) d grp) = length d"
  by (induction grp arbitrary: d) auto

lemma length_reduce_rows:
  "\<forall>g\<in>set grp. length g = length d \<Longrightarrow> length (reduce_rows mode d grp) = length d"
  by (cases mode) (simp_all add: reduce_rows_def length_foldl_map2)

lemma set_group_of: "set (group_of j index src) \<subseteq> set src"
  by (auto simp: group_of_def dest: set_zip_rightD)

lemma length_scatter_reduce [simp]: "length (scatter_reduce dst index src mode) = length dst"
  by (simp add: scatter_reduce_def)

lemma scatter_reduce_rows:
  assumes "\<forall>v\<in>set dst. length v = C" "\<forall>v\<in>set src. length v = C"
    and "v \<in> set (scatter_reduce dst index src mode)"
  shows "length v = C"
proof -
  from assms(3) obtain j where j: "j < length dst"
    and v: "v = reduce_rows mode (dst ! j) (group_of j index src)"
    by (auto simp: scatter_reduce_def)
  have "length (dst ! j) = C" using assms(1) j by simp
  moreover have "\<forall>g\<in>set (group_of j index src). length g = C"
    using assms(2) set_group_of [of j index src] by blast
  ultimately show ?thesis using v by (simp add: length_reduce_rows)
qed

lemma length_normalize [simp]: "length (normalize m) = length m"
  by (simp add: normalize_def)

lemma length_mask_class [simp]: "length (mask_class s) = length s"
  by (simp add: mask_class_def split: list.splits)

lemma length_mask_distill [simp]: "length (mask_distill s) = length s"
  by (simp add: mask_distill_def)

lemma rows_mask_class: "\<forall>row\<in>set s. length row = n \<Longrightarrow> \<forall>row\<in>set (mask_class s). length row = n"
  by (auto simp: mask_class_def split: list.splits)

lemma rows_mask_distill: "\<forall>row\<in>set s. length row = n \<Longrightarrow> \<forall>row\<in>set (mask_distill s). length row = n"
  by (auto simp: mask_distill_def)

lemma length_bsm_scores: "length (bsm_scores ct dt m) = (length m + 1) div 2"
  by (simp add: bsm_scores_def Let_def matmul_t_def length_evens)

lemma rows_matmul_t: "\<forall>row\<in>set (map (map Some) (matmul_t a b)). length row = length b"
  by (simp add: matmul_t_def)

lemma bsm_scores_unfold:
  "bsm_scores ct dt m =
     (let s0 = map (map Some) (matmul_t (evens (normalize m)) (odds (normalize m)));
          s1 = (if ct then mask_class s0 else s0)
      in if dt then mask_distill s1 else s1)"
  by (simp add: bsm_scores_def Let_def)

lemma rows_bsm_scores: "\<forall>row\<in>set (bsm_scores ct dt m). length row = length m div 2"
proof -
  let ?s0 = "map (map Some) (matmul_t (evens (normalize m)) (odds (normalize m)))"
  let ?s1 = "if ct then mask_class ?s0 else ?s0"
  have r0: "\<forall>row\<in>set ?s0. length row = length m div 2"
    using rows_matmul_t [of "evens (normalize m)" "odds (normalize m)"]
    by (simp only: length_odds length_normalize)
  have r1: "\<forall>row\<in>set ?s1. length row = length m div 2"
  proof (cases ct)
    case True
    then show ?thesis using rows_mask_class [OF r0] by (simp only: if_True)
  next
    case False
    then show ?thesis using r0 by (simp only: if_False)
  qed
  show ?thesis
  proof (cases dt)
    case True
    then show ?thesis using rows_mask_distill [OF r1]
      by (simp only: bsm_scores_unfold Let_def if_True)
  next
    case False
    then show ?thesis using r1
      by (simp only: bsm_scores_unfold Let_def if_False)
  qed
qed

lemma src_idx_bsm_indices:
  "src_idx (bsm_indices ct dt r m) = take r (argsort_desc (map max_val (bsm_scores ct dt m)))"
  by (simp add: bsm_indices_unfold Let_def)

lemma unm_idx_bsm_indices:
  "unm_idx (bsm_indices ct dt r m) =
     (if ct then sort (drop r (argsort_desc (map max_val (bsm_scores ct dt m))))
      else drop r (argsort_desc (map max_val (bsm_scores ct dt m))))"
  by (simp add: bsm_indices_unfold Let_def)

lemma dst_idx_bsm_indices:
  "dst_idx (bsm_indices ct dt r m) =
     gather (map max_idx (bsm_scores ct dt m))
       (take r (argsort_desc (map max_val (bsm_scores ct dt m))))"
  by (simp add: bsm_indices_unfold Let_def)

lemma mset_drop_take: "mset (drop r e) + mset (take r e) = mset e"
proof -
  have "mset (take r e @ drop r e) = mset e" by (simp only: append_take_drop_id)
  then show ?thesis by (simp only: mset_append add.commute)
qed

lemma bsm_indices_valid:
  assumes "r \<le> (length m + 1) div 2" "2 \<le> length m"
  shows "bsm_valid (length m) r (bsm_indices ct dt r m)"
proof -
  let ?sc = "bsm_scores ct dt m"
  let ?e = "argsort_desc (map max_val ?sc)"
  have len: "length ?e = (length m + 1) div 2"
    by (simp add: length_argsort_desc length_bsm_scores)
  have ms: "mset (drop r ?e) + mset (take r ?e) = mset [0..<(length m + 1) div 2]"
    by (simp only: mset_drop_take mset_argsort_desc length_map length_bsm_scores)
  have c1: "mset (unm_idx (bsm_indices ct dt r m)) + mset (src_idx (bsm_indices ct dt r m))
              = mset [0..<(length m + 1) div 2]"
    using ms by (cases ct) (simp_all only: unm_idx_bsm_indices src_idx_bsm_indices mset_sort if_True if_False)
  have c2: "length (src_idx (bsm_indices ct dt r m)) = r"
    using len assms(1) by (simp add: src_idx_bsm_indices)
  have c3: "length (dst_idx (bsm_indices ct dt r m)) = r"
    using len assms(1) by (simp add: dst_idx_bsm_indices gather_def)
  have dst: "map max_idx ?sc ! i < length m div 2" if "i \<in> set (take r ?e)" for i
  proof -
    have "i \<in> set ?e" using that by (rule in_set_takeD)
    then have i: "i < length ?sc" by (simp add: set_argsort_desc)
    then have "?sc ! i \<in> set ?sc" by simp
    then have l: "length (?sc ! i) = length m div 2" using rows_bsm_scores by blast
    have "0 < length m div 2" using assms(2) by simp
    then have "?sc ! i \<noteq> []" using l by auto
    then have "max_idx (?sc ! i) < length (?sc ! i)" by (rule max_idx_less)
    then show ?thesis using i l by simp
  qed
  have c4: "list_all (\<lambda>d. d < length m div 2) (dst_idx (bsm_indices ct dt r m))"
    using dst by (simp add: dst_idx_bsm_indices gather_def list_all_iff)
  show ?thesis unfolding bsm_valid_def using c1 c2 c3 c4 by blast
qed

lemma bsm_valid_lengths:
  assumes "bsm_valid t r ix"
  shows "length (unm_idx ix) + r = (t + 1) div 2"
proof -
  have "size (mset (unm_idx ix) + mset (src_idx ix)) = size (mset [0..<(t + 1) div 2])"
    using assms by (simp only: bsm_valid_def)
  then show ?thesis using assms by (simp add: bsm_valid_def)
qed

lemma bsm_valid_unm_set:
  assumes "bsm_valid t r ix"
  shows "set (unm_idx ix) \<union> set (src_idx ix) = {0..<(t + 1) div 2}"
proof -
  have "set_mset (mset (unm_idx ix) + mset (src_idx ix)) = set_mset (mset [0..<(t + 1) div 2])"
    using assms by (simp only: bsm_valid_def)
  then show ?thesis by simp
qed

lemma bsm_valid_distinct:
  assumes "bsm_valid t r ix"
  shows "distinct (unm_idx ix @ src_idx ix)"
proof -
  have "mset (unm_idx ix @ src_idx ix) = mset [0..<(t + 1) div 2]"
    using assms by (simp add: bsm_valid_def)
  then show ?thesis using distinct_upt mset_eq_imp_distinct_iff by blast
qed

lemma length_cat_distill: "length (cat_distill u d) = length u + length d"
  by (cases u; cases d) (simp_all add: cat_distill_def)

lemma set_cat_distill: "set (cat_distill u d) = set u \<union> set d"
  by (cases u; cases d) (auto simp: cat_distill_def)

lemma bipartite_merge1_length:
  assumes "bsm_valid t r ix" "length x = t"
  shows "length (bipartite_merge1 dt ix x mode) = t - r"
proof -
  have "length (unm_idx ix) + r = (t + 1) div 2" using assms(1) by (rule bsm_valid_lengths)
  then have "length (unm_idx ix) + t div 2 = t - r" by linarith
  then show ?thesis using assms(2)
    by (simp add: bipartite_merge1_def Let_def gather_def length_odds length_cat_distill)
qed

lemma gather_rows:
  assumes "\<forall>i\<in>set index. i < length xs" "\<forall>v\<in>set xs. P v"
  shows "\<forall>v\<in>set (gather xs index). P v"
  using assms by (auto simp: gather_def)

lemma bipartite_merge1_rows:
  assumes "bsm_valid t r ix" "length x = t" "\<forall>v\<in>set x. length v = C"
  shows "\<forall>v\<in>set (bipartite_merge1 dt ix x mode). length v = C"
proof -
  let ?src = "evens x" and ?dst = "odds x"
  have ev: "\<forall>v\<in>set ?src. length v = C" using assms(3) set_evens [of x] by blast
  have od: "\<forall>v\<in>set ?dst. length v = C" using assms(3) set_odds [of x] by blast
  have rng: "set (unm_idx ix) \<union> set (src_idx ix) = {0..<length ?src}"
    using bsm_valid_unm_set [OF assms(1)] assms(2) by (simp add: length_evens)
  have u: "\<forall>v\<in>set (gather ?src (unm_idx ix)). length v = C"
    using rng ev by (intro gather_rows) auto
  have s: "\<forall>v\<in>set (gather ?src (src_idx ix)). length v = C"
    using rng ev by (intro gather_rows) auto
  have d: "\<forall>v\<in>set (scatter_reduce ?dst (dst_idx ix) (gather ?src (src_idx ix)) mode). length v = C"
    using scatter_reduce_rows [OF od s] by blast
  show ?thesis
  proof (cases dt)
    case True
    then show ?thesis using u d
      by (simp only: bipartite_merge1_def Let_def set_cat_distill if_True) blast
  next
    case False
    then show ?thesis using u d
      by (simp only: bipartite_merge1_def Let_def set_append if_False) blast
  qed
qed

lemma bipartite_merge_shape:
  assumes "has_shape B t C metric" "has_shape B t C' x" "r \<le> (t + 1) div 2" "2 \<le> t"
  shows "\<exists>y. bipartite_merge t dt (map (bsm_indices ct dt r) metric) x mode = Some y
           \<and> has_shape B (t - r) C' y"
proof -
  let ?ixs = "map (bsm_indices ct dt r) metric"
  let ?y = "map2 (\<lambda>ix xb. bipartite_merge1 dt ix xb mode) ?ixs x"
  have lm: "length metric = B" and lx: "length x = B"
    using assms(1,2) by (simp_all add: has_shape_iff)
  have g: "has_shape (length ?ixs) t (shape2 x) x"
    using has_shape_shape2 [OF assms(2)] lm by simp
  have e: "bipartite_merge t dt ?ixs x mode = Some ?y"
    using g by (simp only: bipartite_merge_def if_True)
  have el: "length m = t - r \<and> (\<forall>v\<in>set m. length v = C')" if "m \<in> set ?y" for m
  proof -
    from that obtain ix xb where z: "(ix, xb) \<in> set (zip ?ixs x)"
      and m: "m = bipartite_merge1 dt ix xb mode" by auto
    have "ix \<in> set ?ixs" using z by (rule set_zip_leftD)
    then obtain mm where mm: "mm \<in> set metric" and ix: "ix = bsm_indices ct dt r mm" by auto
    have "length mm = t" using mm assms(1) by (simp add: has_shape_iff)
    then have v: "bsm_valid t r ix" using bsm_indices_valid [of r mm ct dt] assms(3,4) ix by simp
    have "xb \<in> set x" using z by (rule set_zip_rightD)
    then have xb: "length xb = t" "\<forall>v\<in>set xb. length v = C'"
      using assms(2) by (simp_all add: has_shape_iff)
    show ?thesis
      using bipartite_merge1_length [OF v xb(1)] bipartite_merge1_rows [OF v xb(1) xb(2)] m
      by simp
  qed
  have "length ?y = B" using lm lx by simp
  then have "has_shape B (t - r) C' ?y" using el by (simp only: has_shape_iff) blast
  then show ?thesis using e by blast
qed

lemma clamp_bounds:
  assumes "0 < min r ((int t - p) div 2)" "0 \<le> p"
  shows "nat (min r ((int t - p) div 2)) \<le> (t + 1) div 2" and "2 \<le> t"
proof -
  show "nat (min r ((int t - p) div 2)) \<le> (t + 1) div 2" using assms by linarith
  show "2 \<le> t" using assms by linarith
qed

lemma bipartite_soft_matching_built:
  assumes "0 < min r ((int (shape1 metric) - ((if ct then 1 else 0) + (if dt then 1 else 0))) div 2)"
  shows "bipartite_soft_matching metric r ct dt =
     (let r' = nat (min r ((int (shape1 metric) - ((if ct then 1 else 0) + (if dt then 1 else 0))) div 2));
          ixs = map (bsm_indices ct dt r') metric
      in (bipartite_merge (shape1 metric) dt ixs, bipartite_unmerge (shape1 metric) r' ixs))"
proof -
  have "\<not> min r ((int (shape1 metric) - ((if ct then 1 else 0) + (if dt then 1 else 0))) div 2) \<le> 0"
    using assms by linarith
  then show ?thesis unfolding bipartite_soft_matching_unfold Let_def by (simp only: if_False)
qed

lemma bipartite_soft_matching_void:
  assumes "min r ((int (shape1 metric) - ((if ct then 1 else 0) + (if dt then 1 else 0))) div 2) \<le> 0"
  shows "bipartite_soft_matching metric r ct dt = do_nothing_pair"
  using assms by (simp add: bipartite_soft_matching_unfold Let_def)

section \<open>Token count of the bipartite merge\<close>

lemma bipartite_merge_count_aux:
  fixes r :: int and ct dt :: bool and N :: nat
  assumes m: "has_shape B N C metric" and x: "has_shape B N C' x"
  defines "rc \<equiv> min r ((int N - ((if ct then 1 else 0) + (if dt then 1 else 0))) div 2)"
  shows "\<exists>y. fst (bipartite_soft_matching metric r ct dt) x mode = Some y
           \<and> has_shape B (N - nat rc) C' y"
proof (cases "B = 0")
  case True
  then have e: "metric = []" "x = []" using m x by (simp_all add: has_shape_iff)
  have "min r ((int (shape1 metric) - ((if ct then 1 else 0) + (if dt then 1 else 0))) div 2) \<le> 0"
    by (simp add: e shape1_def min_def)
  then have "bipartite_soft_matching metric r ct dt = do_nothing_pair"
    by (rule bipartite_soft_matching_void)
  then show ?thesis using True e by (simp add: do_nothing_pair_def do_nothing_def has_shape_iff)
next
  case False
  then have s1: "shape1 metric = N" using m by (simp add: has_shape_shape1)
  show ?thesis
  proof (cases "rc \<le> 0")
    case True
    then have "bipartite_soft_matching metric r ct dt = do_nothing_pair"
      unfolding rc_def using s1 by (intro bipartite_soft_matching_void) simp
    then show ?thesis using True x by (simp add: do_nothing_pair_def do_nothing_def)
  next
    case False
    then have pos: "0 < rc" by simp
    have p0: "(0::int) \<le> (if ct then 1 else 0) + (if dt then 1 else 0)" by simp
    have b1: "nat rc \<le> (N + 1) div 2" and b2: "2 \<le> N"
      using clamp_bounds [OF pos [unfolded rc_def] p0] by (simp_all add: rc_def)
    have "bipartite_soft_matching metric r ct dt =
            (bipartite_merge N dt (map (bsm_indices ct dt (nat rc)) metric),
             bipartite_unmerge N (nat rc) (map (bsm_indices ct dt (nat rc)) metric))"
      using bipartite_soft_matching_built [of r metric ct dt] pos
      by (simp add: s1 rc_def Let_def)
    then show ?thesis using bipartite_merge_shape [OF m x b1 b2] by simp
  qed
qed

text \<open>
  Claim C2, as amended. For every metric tensor of shape [B, N, C], every requested \<open>r\<close>
  and all four combinations of the flags, the merge returned by
  \<open>bipartite_soft_matching\<close> maps a tensor of shape [B, N, C'] to one of shape
  [B, N - r', C'], where \<open>r'\<close> is \<open>r\<close> clamped to \<open>(N - protected) div 2\<close> (and to 0 from
  below); so the output has \<open>N - r\<close> rows whenever \<open>0 \<le> r \<le> (N - protected) div 2\<close>. For
  \<open>r \<le> 0\<close> merge and unmerge return every input unchanged.
\<close>

theorem bipartite_merge_token_count:
  "(has_shape B N C metric \<and> has_shape B N C' x \<longrightarrow>
      (\<exists>y. fst (bipartite_soft_matching metric r class_token distill_token) x mode = Some y
         \<and> has_shape B
             (N - nat (min r ((int N - ((if class_token then 1 else 0) + (if distill_token then 1 else 0))) div 2)))
             C' y))
   \<and> (r \<le> 0 \<longrightarrow>
      (\<forall>z mode. fst (bipartite_soft_matching metric r class_token distill_token) z mode = Some z)
      \<and> (\<forall>z. snd (bipartite_soft_matching metric r class_token distill_token) z = Some z))"
proof (intro conjI impI)
  assume "has_shape B N C metric \<and> has_shape B N C' x"
  then show "\<exists>y. fst (bipartite_soft_matching metric r class_token distill_token) x mode = Some y
         \<and> has_shape B
             (N - nat (min r ((int N - ((if class_token then 1 else 0) + (if distill_token then 1 else 0))) div 2)))
             C' y"
    using bipartite_merge_count_aux [where r = r and ct = class_token and dt = distill_token
        and N = N and B = B and C = C and metric = metric and C' = C' and x = x and mode = mode]
    by blast
next
  assume "r \<le> 0"
  then have "bipartite_soft_matching metric r class_token distill_token = do_nothing_pair"
    by (intro bipartite_soft_matching_void) simp
  then show "\<forall>z mode. fst (bipartite_soft_matching metric r class_token distill_token) z mode = Some z"
    by (simp add: do_nothing_pair_def do_nothing_def)
next
  assume "r \<le> 0"
  then have "bipartite_soft_matching metric r class_token distill_token = do_nothing_pair"
    by (intro bipartite_soft_matching_void) simp
  then show "\<forall>z. snd (bipartite_soft_matching metric r class_token distill_token) z = Some z"
    by (simp add: do_nothing_pair_def do_nothing_def)
qed

theorem bipartite_merge_token_count_witness:
  "has_shape 1 5 2 [[[1, 0], [1, 0], [0, 1], [0, 1], [1, 1]]]
   \<and> has_shape 1 5 1 [[[10], [20], [30], [40], [50]]]
   \<and> (\<exists>y. fst (bipartite_soft_matching [[[1, 0], [1, 0], [0, 1], [0, 1], [1, 1]]] 2 True False)
             [[[10], [20], [30], [40], [50]]] ModeSum = Some y
         \<and> has_shape 1 3 1 y)
   \<and> (\<forall>z mode. fst (bipartite_soft_matching [[[1, 0], [1, 0], [0, 1], [0, 1], [1, 1]]] 0 True False) z mode = Some z)
   \<and> (\<forall>z. snd (bipartite_soft_matching [[[1, 0], [1, 0], [0, 1], [0, 1], [1, 1]]] 0 True False) z = Some z)"
  using bipartite_merge_token_count [of 1 5 2 "[[[1, 0], [1, 0], [0, 1], [0, 1], [1, 1]]]" 1
      "[[[10], [20], [30], [40], [50]]]" 2 True False ModeSum]
    bipartite_merge_token_count [of 1 5 2 "[[[1, 0], [1, 0], [0, 1], [0, 1], [1, 1]]]" 1
      "[[[10], [20], [30], [40], [50]]]" 0 True False ModeSum]
  by (simp add: has_shape_def)

text \<open>
  The claim as stated fails: with \<open>N = 2\<close>, \<open>class_token\<close> set and \<open>r = 1\<close>, which lies in
  [0, N/2], the clamp leaves nothing to merge and the output keeps both rows.
\<close>

theorem bipartite_merge_token_count_counterexample:
  "has_shape 1 2 1 [[[1], [1]]] \<and> has_shape 1 2 1 [[[5], [7]]]
   \<and> (0::int) \<le> 1 \<and> (1::int) \<le> 2 div 2
   \<and> fst (bipartite_soft_matching [[[1], [1]]] 1 True False) [[[5], [7]]] ModeMean = Some [[[5], [7]]]
   \<and> \<not> has_shape 1 (2 - 1) 1 [[[5], [7]]]"
  by (simp add: has_shape_def bipartite_soft_matching_unfold shape1_def do_nothing_pair_def
      do_nothing_def)

section \<open>The concrete scenario\<close>

lemma scenario_scores:
  "bsm_scores False False [[1, 0], [1, 0], [0, 1], [0, 1]] = [[Some 1, Some 0], [Some 0, Some 1]]"
  by (simp add: bsm_scores_def normalize_def norm_row_def matmul_t_def dot_def)




lemma scenario_indices:
  "bsm_indices False False 1 [[1, 0], [1, 0], [0, 1], [0, 1]]
     = \<lparr>unm_idx = [1], src_idx = [0], dst_idx = [0]\<rparr>"
  unfolding bsm_indices_unfold scenario_scores by code_simp


lemma reduce_rows_Nil:
  "reduce_rows mode d [] = d"
  by (cases mode) (simp_all add: reduce_rows_def)









section \<open>Protected tokens\<close>

lemma distill3_scores: "bsm_scores False True [[1], [1], [1]] = [[None], [None]]"
  by (simp add: bsm_scores_def normalize_def norm_row_def matmul_t_def dot_def mask_distill_def)

lemma distill3_indices:
  "bsm_indices False True 1 [[1], [1], [1]] = \<lparr>unm_idx = [1], src_idx = [0], dst_idx = [0]\<rparr>"
  unfolding bsm_indices_unfold distill3_scores by code_simp

text \<open>
  Claim C3 at the input N = 3, \<open>distill_token\<close> alone, \<open>r = 1\<close>. The clamp allows one
  merge, (3 - 1) div 2 = 1, although the destination set holds the distillation token
  only. Its column is the whole score matrix, every score is \<open>-inf\<close>, the first maximum
  is column 0, and the source token at position 0 is merged into the distillation token:
  dst_idx = [0], and row 1 of the merge output is the mean of positions 1 and 0.
\<close>

theorem distill_token_chosen_as_destination:
  "bsm_scores False True [[1], [1], [1]] = [[None], [None]]
   \<and> bsm_indices False True 1 [[1], [1], [1]] = \<lparr>unm_idx = [1], src_idx = [0], dst_idx = [0]\<rparr>
   \<and> fst (bipartite_soft_matching [[[1], [1], [1]]] 1 False True) [[[10], [20], [30]]] ModeMean
        = Some [[[30], [15]]]"
proof (intro conjI)
  have c: "bipartite_soft_matching [[[1], [1], [1]]] 1 False True
      = (bipartite_merge 3 True [\<lparr>unm_idx = [1], src_idx = [0], dst_idx = [0]\<rparr>],
         bipartite_unmerge 3 1 [\<lparr>unm_idx = [1], src_idx = [0], dst_idx = [0]\<rparr>])"
    by (simp add: bipartite_soft_matching_unfold shape1_def Let_def
        distill3_indices [unfolded One_nat_def] eval_nat_numeral)
  have m: "bipartite_merge1 True \<lparr>unm_idx = [1], src_idx = [0], dst_idx = [0]\<rparr>
             [[10], [20], [30]] ModeMean = [[30], [15]]"
    by (simp add: bipartite_merge1_def Let_def gather_def scatter_reduce_def group_of_def
        upt_rec cat_distill_def reduce_rows_def)
  show "fst (bipartite_soft_matching [[[1], [1], [1]]] 1 False True) [[[10], [20], [30]]] ModeMean
        = Some [[[30], [15]]]"
    by (simp add: c bipartite_merge_def has_shape_def shape2_def m [unfolded One_nat_def])
qed (rule distill3_scores distill3_indices)+

section \<open>Scatter\<close>

lemma scatter_Nil [simp]: "scatter out [] src = out" "scatter out index [] = out"
  by (simp_all add: scatter_def)

lemma scatter_Cons [simp]: "scatter out (i # index) (v # src) = scatter (out[i := v]) index src"
  by (simp add: scatter_def)

lemma length_scatter [simp]: "length (scatter out index src) = length out"
proof (induction index arbitrary: out src)
  case (Cons i index)
  then show ?case by (cases src) simp_all
qed simp

lemma scatter_nth_other: "k \<notin> set index \<Longrightarrow> scatter out index src ! k = out ! k"
proof (induction index arbitrary: out src)
  case (Cons i index)
  then show ?case by (cases src) simp_all
qed simp

lemma scatter_nth_hit:
  "distinct index \<Longrightarrow> p < length index \<Longrightarrow> p < length src \<Longrightarrow> index ! p < length out
     \<Longrightarrow> scatter out index src ! (index ! p) = src ! p"
proof (induction index arbitrary: out src p)
  case Nil
  then show ?case by simp
next
  case (Cons i index)
  from Cons.prems(3) obtain v src' where src: "src = v # src'" by (cases src) auto
  show ?case
  proof (cases p)
    case 0
    then show ?thesis using Cons.prems src by (simp add: scatter_nth_other)
  next
    case (Suc q)
    then show ?thesis using Cons.prems src Cons.IH [of q src' "out[i := v]"] by simp
  qed
qed

lemma scatter_append:
  "length i1 = length s1 \<Longrightarrow> scatter (scatter out i1 s1) i2 s2 = scatter out (i1 @ i2) (s1 @ s2)"
  by (simp add: scatter_def)

lemma scatter_buffer_irrelevant:
  assumes "distinct index" "length index = length src" "set index = {0..<n}"
    and "length out = n" "length out' = n"
  shows "scatter out index src = scatter out' index src"
proof (rule nth_equalityI)
  show "length (scatter out index src) = length (scatter out' index src)"
    using assms(4,5) by simp
next
  fix k assume "k < length (scatter out index src)"
  then have "k \<in> set index" using assms(3,4) by simp
  then obtain p where p: "p < length index" "index ! p = k" by (auto simp: in_set_conv_nth)
  have "scatter out index src ! (index ! p) = src ! p"
    using assms p \<open>k < length (scatter out index src)\<close> by (intro scatter_nth_hit) simp_all
  moreover have "scatter out' index src ! (index ! p) = src ! p"
    using assms p \<open>k < length (scatter out index src)\<close> by (intro scatter_nth_hit) simp_all
  ultimately show "scatter out index src ! k = scatter out' index src ! k" using p(2) by simp
qed

lemma evens_upt: "evens [0..<n] = map (\<lambda>i. 2 * i) [0..<(n + 1) div 2]"
  by (rule nth_equalityI) (simp_all add: length_evens evens_nth)

lemma odds_upt: "odds [0..<n] = map (\<lambda>j. 2 * j + 1) [0..<n div 2]"
  by (rule nth_equalityI) (simp_all add: length_odds odds_nth)

lemma mset_evens_odds: "mset (evens xs) + mset (odds xs) = mset xs"
  by (induction xs rule: evens.induct) auto

section \<open>The bipartite unmerge\<close>

lemma unmerge_into_scatter:
  assumes "length (unm_idx ix) \<le> length x" "length (dst_idx ix) = length (src_idx ix)"
  shows "bipartite_unmerge_into out ix x
           = scatter out (unmerge_targets (length x - length (unm_idx ix)) ix) (unmerge_values ix x)"
proof -
  let ?u = "length (unm_idx ix)"
  let ?dst = "drop ?u x" and ?unm = "take ?u x"
  have l1: "length (map (\<lambda>j. 2 * j + 1) [0..<length ?dst]) = length ?dst" by simp
  have l2: "length (map (\<lambda>j. 2 * j + 1) [0..<length ?dst] @ map (\<lambda>i. 2 * i) (unm_idx ix))
              = length (?dst @ ?unm)"
    using assms(1) by simp
  have "bipartite_unmerge_into out ix x
          = scatter (scatter (scatter out (map (\<lambda>j. 2 * j + 1) [0..<length ?dst]) ?dst)
                      (map (\<lambda>i. 2 * i) (unm_idx ix)) ?unm)
              (map (\<lambda>i. 2 * i) (src_idx ix)) (gather ?dst (dst_idx ix))"
    by (simp add: bipartite_unmerge_into_def Let_def assign_odds_def)
  also have "\<dots> = scatter (scatter out (map (\<lambda>j. 2 * j + 1) [0..<length ?dst] @ map (\<lambda>i. 2 * i) (unm_idx ix))
                      (?dst @ ?unm))
              (map (\<lambda>i. 2 * i) (src_idx ix)) (gather ?dst (dst_idx ix))"
    by (simp only: scatter_append [OF l1])
  also have "\<dots> = scatter out
       ((map (\<lambda>j. 2 * j + 1) [0..<length ?dst] @ map (\<lambda>i. 2 * i) (unm_idx ix)) @ map (\<lambda>i. 2 * i) (src_idx ix))
       ((?dst @ ?unm) @ gather ?dst (dst_idx ix))"
    by (simp only: scatter_append [OF l2])
  finally show ?thesis by (simp add: unmerge_targets_def unmerge_values_def)
qed

lemma length_unmerge_values:
  assumes "length (unm_idx ix) \<le> length x"
  shows "length (unmerge_values ix x) = length x + length (dst_idx ix)"
  using assms by (simp add: unmerge_values_def gather_def)

lemma mset_unmerge_targets:
  assumes "bsm_valid t r ix"
  shows "mset (unmerge_targets (t div 2) ix) = mset [0..<t]"
proof -
  have "mset (map (\<lambda>i. 2 * i) (unm_idx ix)) + mset (map (\<lambda>i. 2 * i) (src_idx ix))
          = image_mset (\<lambda>i. 2 * i) (mset (unm_idx ix) + mset (src_idx ix))"
    by simp
  also have "\<dots> = image_mset (\<lambda>i. 2 * i) (mset [0..<(t + 1) div 2])"
    using assms by (simp only: bsm_valid_def)
  also have "\<dots> = mset (evens [0..<t])" by (simp only: evens_upt mset_map)
  finally have e: "mset (map (\<lambda>i. 2 * i) (unm_idx ix)) + mset (map (\<lambda>i. 2 * i) (src_idx ix))
                     = mset (evens [0..<t])" .
  have "mset (unmerge_targets (t div 2) ix)
          = mset (odds [0..<t]) + (mset (map (\<lambda>i. 2 * i) (unm_idx ix)) + mset (map (\<lambda>i. 2 * i) (src_idx ix)))"
    by (simp add: unmerge_targets_def odds_upt)
  also have "\<dots> = mset (odds [0..<t]) + mset (evens [0..<t])" by (simp only: e)
  finally show ?thesis using mset_evens_odds [of "[0..<t]"] by (simp only: add.commute)
qed

lemma unmerge_into_buffer_irrelevant:
  assumes v: "bsm_valid t r ix" and x: "length x = t - r"
    and o: "length out = t" "length out' = t"
  shows "bipartite_unmerge_into out ix x = bipartite_unmerge_into out' ix x"
    and "length (bipartite_unmerge_into out ix x) = t"
proof -
  have lu: "length (unm_idx ix) + r = (t + 1) div 2" using v by (rule bsm_valid_lengths)
  then have ux: "length (unm_idx ix) \<le> length x" using x by linarith
  have ds: "length (dst_idx ix) = length (src_idx ix)" using v by (simp add: bsm_valid_def)
  have nd: "length x - length (unm_idx ix) = t div 2" using lu x by linarith
  let ?T = "unmerge_targets (t div 2) ix" and ?V = "unmerge_values ix x"
  have ms: "mset ?T = mset [0..<t]" using v by (rule mset_unmerge_targets)
  have d: "distinct ?T" using ms distinct_upt mset_eq_imp_distinct_iff by blast
  have st: "set ?T = {0..<t}" using ms by (metis mset_eq_setD set_upt)
  have lt: "length ?T = t" using ms by (metis length_upt mset_eq_length minus_nat.diff_0)
  have lv: "length ?V = length x + r" using length_unmerge_values [OF ux] v by (simp add: bsm_valid_def)
  have "length x + r = t" using lu x by linarith
  then have tv: "length ?T = length ?V" using lt lv by simp
  have e: "bipartite_unmerge_into b ix x = scatter b ?T ?V" for b :: "'a list"
    using unmerge_into_scatter [OF ux ds, of b] nd by simp
  show "bipartite_unmerge_into out ix x = bipartite_unmerge_into out' ix x"
    unfolding e using d tv st o by (rule scatter_buffer_irrelevant)
  show "length (bipartite_unmerge_into out ix x) = t" unfolding e using o by simp
qed

lemma unmerge_values_rows:
  assumes v: "bsm_valid t r ix" and x: "length x = t - r"
  shows "set (unmerge_values ix x) \<subseteq> set x"
proof -
  have lu: "length (unm_idx ix) + r = (t + 1) div 2" using v by (rule bsm_valid_lengths)
  then have nd: "length (drop (length (unm_idx ix)) x) = t div 2" using x by simp
  have "\<forall>d\<in>set (dst_idx ix). d < t div 2" using v by (simp add: bsm_valid_def list_all_iff)
  then have "set (gather (drop (length (unm_idx ix)) x) (dst_idx ix))
               \<subseteq> set (drop (length (unm_idx ix)) x)"
    using nd by (auto simp: gather_def simp del: length_drop)
  moreover have "set (drop (length (unm_idx ix)) x) \<subseteq> set x" by (rule set_drop_subset)
  moreover have "set (take (length (unm_idx ix)) x) \<subseteq> set x" by (rule set_take_subset)
  ultimately show ?thesis by (auto simp: unmerge_values_def)
qed

lemma unmerge_into_rows:
  assumes v: "bsm_valid t r ix" and x: "length x = t - r" and o: "length out = t"
  shows "set (bipartite_unmerge_into out ix x) \<subseteq> set x"
proof
  fix row assume "row \<in> set (bipartite_unmerge_into out ix x)"
  moreover have len: "length (bipartite_unmerge_into out ix x) = t"
    using unmerge_into_buffer_irrelevant(2) [OF v x o o] .
  ultimately obtain k where k: "k < t" "row = bipartite_unmerge_into out ix x ! k"
    by (metis in_set_conv_nth)
  have lu: "length (unm_idx ix) + r = (t + 1) div 2" using v by (rule bsm_valid_lengths)
  then have ux: "length (unm_idx ix) \<le> length x" using x by linarith
  have ds: "length (dst_idx ix) = length (src_idx ix)" using v by (simp add: bsm_valid_def)
  have nd: "length x - length (unm_idx ix) = t div 2" using lu x by linarith
  let ?T = "unmerge_targets (t div 2) ix" and ?V = "unmerge_values ix x"
  have ms: "mset ?T = mset [0..<t]" using v by (rule mset_unmerge_targets)
  have d: "distinct ?T" using ms distinct_upt mset_eq_imp_distinct_iff by blast
  have st: "set ?T = {0..<t}" using ms by (metis mset_eq_setD set_upt)
  have lt: "length ?T = t" using ms by (metis length_upt mset_eq_length minus_nat.diff_0)
  have lv: "length ?V = t"
    using length_unmerge_values [OF ux] v lu x by (simp add: bsm_valid_def)
  have e: "bipartite_unmerge_into out ix x = scatter out ?T ?V"
    using unmerge_into_scatter [OF ux ds, of out] nd by simp
  have "k \<in> set ?T" using st k(1) by simp
  then obtain p where p: "p < length ?T" "?T ! p = k" by (auto simp: in_set_conv_nth)
  have "scatter out ?T ?V ! (?T ! p) = ?V ! p"
    using d p lt lv o k(1) by (intro scatter_nth_hit) simp_all
  then have "row = ?V ! p" using k(2) e p(2) by simp
  then have "row \<in> set ?V" using p(1) lt lv by simp
  then show "row \<in> set x" using unmerge_values_rows [OF v x] by blast
qed

lemma bipartite_unmerge_shape:
  assumes "has_shape B t C metric" "has_shape B (t - r) C' x" "r \<le> (t + 1) div 2" "2 \<le> t"
  shows "\<exists>y. bipartite_unmerge t r (map (bsm_indices ct dt r) metric) x = Some y
           \<and> has_shape B t C' y"
proof -
  let ?ixs = "map (bsm_indices ct dt r) metric"
  let ?y = "map2 (\<lambda>ix xb. bipartite_unmerge1 t (shape2 x) ix xb) ?ixs x"
  have lm: "length metric = B" and lx: "length x = B"
    using assms(1,2) by (simp_all add: has_shape_iff)
  have g: "has_shape (length ?ixs) (t - r) (shape2 x) x"
    using has_shape_shape2 [OF assms(2)] lm by simp
  have e: "bipartite_unmerge t r ?ixs x = Some ?y"
    using g by (simp only: bipartite_unmerge_def if_True)
  have el: "length m = t \<and> (\<forall>v\<in>set m. length v = C')" if "m \<in> set ?y" for m
  proof -
    from that obtain ix xb where z: "(ix, xb) \<in> set (zip ?ixs x)"
      and m: "m = bipartite_unmerge1 t (shape2 x) ix xb" by auto
    have "ix \<in> set ?ixs" using z by (rule set_zip_leftD)
    then obtain mm where mm: "mm \<in> set metric" and ix: "ix = bsm_indices ct dt r mm" by auto
    have "length mm = t" using mm assms(1) by (simp add: has_shape_iff)
    then have v: "bsm_valid t r ix" using bsm_indices_valid [of r mm ct dt] assms(3,4) ix by simp
    have "xb \<in> set x" using z by (rule set_zip_rightD)
    then have xb: "length xb = t - r" "\<forall>v\<in>set xb. length v = C'"
      using assms(2) by (simp_all add: has_shape_iff)
    have o: "length (replicate t (replicate (shape2 x) (0::real))) = t" by simp
    show ?thesis
      using unmerge_into_buffer_irrelevant(2) [OF v xb(1) o o] unmerge_into_rows [OF v xb(1) o]
        xb(2) m
      by (auto simp: bipartite_unmerge1_def)
  qed
  have "length ?y = B" using lm lx by simp
  then have "has_shape B t C' ?y" using el by (simp only: has_shape_iff) blast
  then show ?thesis using e by blast
qed

lemma bipartite_unmerge_nth:
  assumes m: "has_shape B t C metric" and x: "has_shape B (t - r) C' x"
    and r: "r \<le> (t + 1) div 2" "2 \<le> t" and b: "b < B" and o: "length out = t"
  shows "\<exists>y. bipartite_unmerge t r (map (bsm_indices ct dt r) metric) x = Some y
           \<and> has_shape B t C' y
           \<and> y ! b = bipartite_unmerge_into out (bsm_indices ct dt r (metric ! b)) (x ! b)"
proof -
  let ?ixs = "map (bsm_indices ct dt r) metric"
  let ?y = "map2 (\<lambda>ix xb. bipartite_unmerge1 t (shape2 x) ix xb) ?ixs x"
  let ?ix = "bsm_indices ct dt r (metric ! b)"
  have lm: "length metric = B" and lx: "length x = B"
    using m x by (simp_all add: has_shape_iff)
  have g: "has_shape (length ?ixs) (t - r) (shape2 x) x"
    using has_shape_shape2 [OF x] lm by simp
  have e: "bipartite_unmerge t r ?ixs x = Some ?y"
    using g by (simp only: bipartite_unmerge_def if_True)
  obtain y where y: "bipartite_unmerge t r ?ixs x = Some y" "has_shape B t C' y"
    using bipartite_unmerge_shape [OF m x r] by blast
  have yy: "y = ?y" using e y(1) by simp
  have "metric ! b \<in> set metric" using b lm by simp
  then have "length (metric ! b) = t" using m by (simp add: has_shape_iff)
  then have v: "bsm_valid t r ?ix" using bsm_indices_valid [of r "metric ! b" ct dt] r by simp
  have "x ! b \<in> set x" using b lx by simp
  then have xb: "length (x ! b) = t - r" using x by (simp add: has_shape_iff)
  have z: "length (replicate t (replicate (shape2 x) (0::real))) = t" by simp
  have "?y ! b = bipartite_unmerge1 t (shape2 x) ?ix (x ! b)"
    using b lm lx by simp
  also have "\<dots> = bipartite_unmerge_into out ?ix (x ! b)"
    unfolding bipartite_unmerge1_def by (rule unmerge_into_buffer_irrelevant(1) [OF v xb z o])
  finally show ?thesis using y yy by blast
qed

text \<open>
  Claim C9. With the clamped \<open>r\<close> positive, for every batch element \<open>b\<close>: \<open>unm_idx\<close> and
  \<open>src_idx\<close> together are a permutation of the (N + 1) div 2 source-side indices, each
  index occurring once in one of the two; the rows written by \<open>unmerge\<close> (the odd rows,
  then \<open>2 * unm_idx\<close>, then \<open>2 * src_idx\<close>) are a permutation of the N output rows, so
  every row is written exactly once. On an input with N - r rows the tensor returned by
  the \<open>unmerge\<close> closure has, in batch element \<open>b\<close>, at the row of every write the value
  of that write; it is what the three writes leave of any buffer of N rows, whatever
  the buffer held, so that no entry of the zero-initialised buffer survives: each
  output row is a row of the input.
\<close>

theorem unmerge_writes_every_row_once:
  fixes r :: int and N :: nat
  assumes "has_shape B N C metric"
    and "0 < min r ((int N - ((if class_token then 1 else 0) + (if distill_token then 1 else 0))) div 2)"
    and "b < B"
  defines "r' \<equiv> nat (min r ((int N - ((if class_token then 1 else 0) + (if distill_token then 1 else 0))) div 2))"
  defines "ix \<equiv> bsm_indices class_token distill_token r' (metric ! b)"
  shows "snd (bipartite_soft_matching metric r class_token distill_token)
           = bipartite_unmerge N r' (map (bsm_indices class_token distill_token r') metric)
       \<and> mset (unm_idx ix @ src_idx ix) = mset [0..<(N + 1) div 2]
       \<and> mset (unmerge_targets (N div 2) ix) = mset [0..<N]
       \<and> (length xb = N - r' \<and> length out = N \<and> length out' = N \<longrightarrow>
            bipartite_unmerge_into out ix xb = scatter out (unmerge_targets (N div 2) ix) (unmerge_values ix xb)
          \<and> bipartite_unmerge_into out ix xb = bipartite_unmerge_into out' ix xb
          \<and> length (bipartite_unmerge_into out ix xb) = N
          \<and> set (bipartite_unmerge_into out ix xb) \<subseteq> set xb)
       \<and> (has_shape B (N - r') C' x \<longrightarrow>
            (\<exists>y. snd (bipartite_soft_matching metric r class_token distill_token) x = Some y
               \<and> has_shape B N C' y
               \<and> (\<forall>p<N. y ! b ! (unmerge_targets (N div 2) ix ! p) = unmerge_values ix (x ! b) ! p)
               \<and> (\<forall>buf. length buf = N \<longrightarrow>
                     y ! b = scatter buf (unmerge_targets (N div 2) ix) (unmerge_values ix (x ! b)))
               \<and> set (y ! b) \<subseteq> set (x ! b)))"
proof -
  have lmB: "length metric = B" using assms(1) by (simp add: has_shape_iff)
  have mb: "metric ! b \<in> set metric" using assms(3) lmB by simp
  have B0: "0 < B" using assms(3) by simp
  have s1: "shape1 metric = N" using assms(1) B0 by (rule has_shape_shape1)
  have lm: "length (metric ! b) = N" using assms(1) mb by (simp add: has_shape_iff)
  have p0: "(0::int) \<le> (if class_token then 1 else 0) + (if distill_token then 1 else 0)" by simp
  have b1: "r' \<le> (N + 1) div 2" and b2: "2 \<le> N"
    using clamp_bounds [OF assms(2) p0] by (simp_all add: r'_def)
  have v: "bsm_valid N r' ix"
    using bsm_indices_valid [of r' "metric ! b" class_token distill_token] b1 b2 lm
    by (simp add: ix_def)
  have c: "bipartite_soft_matching metric r class_token distill_token =
            (bipartite_merge N distill_token (map (bsm_indices class_token distill_token r') metric),
             bipartite_unmerge N r' (map (bsm_indices class_token distill_token r') metric))"
    using bipartite_soft_matching_built [of r metric class_token distill_token] assms(2)
    by (simp add: s1 r'_def Let_def)
  have g1: "snd (bipartite_soft_matching metric r class_token distill_token)
           = bipartite_unmerge N r' (map (bsm_indices class_token distill_token r') metric)"
    by (simp add: c)
  have g2: "mset (unm_idx ix @ src_idx ix) = mset [0..<(N + 1) div 2]"
    using v by (simp add: bsm_valid_def)
  have g3: "mset (unmerge_targets (N div 2) ix) = mset [0..<N]"
    using v by (rule mset_unmerge_targets)
  have lu: "length (unm_idx ix) + r' = (N + 1) div 2" using v by (rule bsm_valid_lengths)
  have ds: "length (dst_idx ix) = length (src_idx ix)" using v by (simp add: bsm_valid_def)
  have sc: "bipartite_unmerge_into out ix xb
              = scatter out (unmerge_targets (N div 2) ix) (unmerge_values ix xb)"
    if x: "length xb = N - r'" for xb out :: "'z list"
  proof -
    have ux: "length (unm_idx ix) \<le> length xb" using x lu by linarith
    have nd: "length xb - length (unm_idx ix) = N div 2" using lu x by linarith
    show ?thesis using unmerge_into_scatter [OF ux ds, of out] nd by simp
  qed
  have g4: "bipartite_unmerge_into out ix xb = scatter out (unmerge_targets (N div 2) ix) (unmerge_values ix xb)
          \<and> bipartite_unmerge_into out ix xb = bipartite_unmerge_into out' ix xb
          \<and> length (bipartite_unmerge_into out ix xb) = N
          \<and> set (bipartite_unmerge_into out ix xb) \<subseteq> set xb"
    if h: "length xb = N - r' \<and> length out = N \<and> length out' = N"
  proof -
    have x: "length xb = N - r'" and o: "length out = N" and o': "length out' = N"
      using h by simp_all
    show ?thesis
      using sc [OF x, of out]
        unmerge_into_buffer_irrelevant [OF v x o o'] unmerge_into_rows [OF v x o]
      by simp
  qed
  have g5: "\<exists>y. snd (bipartite_soft_matching metric r class_token distill_token) x = Some y
               \<and> has_shape B N C' y
               \<and> (\<forall>p<N. y ! b ! (unmerge_targets (N div 2) ix ! p) = unmerge_values ix (x ! b) ! p)
               \<and> (\<forall>buf. length buf = N \<longrightarrow>
                     y ! b = scatter buf (unmerge_targets (N div 2) ix) (unmerge_values ix (x ! b)))
               \<and> set (y ! b) \<subseteq> set (x ! b)"
    if hx: "has_shape B (N - r') C' x"
  proof -
    let ?T = "unmerge_targets (N div 2) ix" and ?V = "unmerge_values ix (x ! b)"
    let ?z = "replicate N ([] :: vec)"
    have lz: "length ?z = N" by simp
    obtain y where y: "bipartite_unmerge N r' (map (bsm_indices class_token distill_token r') metric) x = Some y"
        "has_shape B N C' y" "y ! b = bipartite_unmerge_into ?z ix (x ! b)"
      using bipartite_unmerge_nth [OF assms(1) hx b1 b2 assms(3) lz, of class_token distill_token]
      by (auto simp: ix_def)
    have "x ! b \<in> set x" using assms(3) hx by (simp add: has_shape_iff)
    then have xb: "length (x ! b) = N - r'" using hx by (simp add: has_shape_iff)
    have any: "y ! b = scatter buf ?T ?V" if "length buf = N" for buf
      using y(3) unmerge_into_buffer_irrelevant(1) [OF v xb lz that] sc [OF xb, of buf] by simp
    have d: "distinct ?T" using g3 distinct_upt mset_eq_imp_distinct_iff by blast
    have lt: "length ?T = N" using g3 by (metis length_upt mset_eq_length minus_nat.diff_0)
    have st: "set ?T = {0..<N}" using g3 by (metis mset_eq_setD set_upt)
    have ux: "length (unm_idx ix) \<le> length (x ! b)" using xb lu by linarith
    have lv: "length ?V = N"
      using length_unmerge_values [OF ux] v lu xb by (simp add: bsm_valid_def)
    have pt: "y ! b ! (?T ! p) = ?V ! p" if p: "p < N" for p
    proof -
      have "?T ! p \<in> set ?T" using p lt by simp
      then have "?T ! p < length ?z" using st by simp
      then have "scatter ?z ?T ?V ! (?T ! p) = ?V ! p"
        using d p lt lv by (intro scatter_nth_hit) simp_all
      then show ?thesis using any [OF lz] by simp
    qed
    have sub: "set (y ! b) \<subseteq> set (x ! b)"
      using unmerge_into_rows [OF v xb lz] y(3) by simp
    show ?thesis using y(1,2) pt any sub by (simp add: g1)
  qed
  show ?thesis using g1 g2 g3 g4 g5 by blast
qed

theorem unmerge_writes_every_row_once_witness:
  "has_shape 1 4 2 [[[1, 0], [1, 0], [0, 1], [0, 1]]]
   \<and> (0 :: nat) < 1
   \<and> mset (unm_idx (bsm_indices False False 1 [[1, 0], [1, 0], [0, 1], [0, 1]])
        @ src_idx (bsm_indices False False 1 [[1, 0], [1, 0], [0, 1], [0, 1]]))
        = mset [0..<(4 + 1) div 2]
   \<and> mset (unmerge_targets (4 div 2) (bsm_indices False False 1 [[1, 0], [1, 0], [0, 1], [0, 1]]))
        = mset [0..<4]
   \<and> bipartite_unmerge_into [[0], [0], [0], [0 :: real]]
        (bsm_indices False False 1 [[1, 0], [1, 0], [0, 1], [0, 1]]) [[5], [6], [7]]
      = bipartite_unmerge_into [[1], [2], [3], [4]]
        (bsm_indices False False 1 [[1, 0], [1, 0], [0, 1], [0, 1]]) [[5], [6], [7]]
   \<and> (\<exists>y. snd (bipartite_soft_matching [[[1, 0], [1, 0], [0, 1], [0, 1]]] 1 False False)
             [[[5], [6], [7]]] = Some y \<and> has_shape 1 4 1 y
          \<and> (\<forall>p<4. y ! 0 ! (unmerge_targets (4 div 2)
                             (bsm_indices False False 1 [[1, 0], [1, 0], [0, 1], [0, 1]]) ! p)
                 = unmerge_values (bsm_indices False False 1 [[1, 0], [1, 0], [0, 1], [0, 1]])
                     [[5], [6], [7]] ! p)
          \<and> y ! 0 = scatter [[1], [2], [3], [4]]
                 (unmerge_targets (4 div 2) (bsm_indices False False 1 [[1, 0], [1, 0], [0, 1], [0, 1]]))
                 (unmerge_values (bsm_indices False False 1 [[1, 0], [1, 0], [0, 1], [0, 1]])
                     [[5], [6], [7]])
          \<and> set (y ! 0) \<subseteq> set [[5], [6], [7]])"
proof -
  have h1: "has_shape 1 4 2 [[[1, 0], [1, 0], [0, 1], [0, 1]]]" by (simp add: has_shape_def)
  have h2: "0 < min (1::int) ((int 4 - ((if False then 1 else 0) + (if False then 1 else 0))) div 2)"
    by simp
  have h3: "(0 :: nat) < 1" by simp
  have r: "nat (min (1::int) ((int 4 - ((if False then 1 else 0) + (if False then 1 else 0))) div 2)) = 1"
    by simp
  note t = unmerge_writes_every_row_once [OF h1 h2 h3, unfolded r nth_Cons_0,
      of "[[5], [6], [7 :: real]]" "[[0], [0], [0], [0]]" "[[1], [2], [3], [4]]" 1 "[[[5], [6], [7]]]",
      unfolded nth_Cons_0]
  have p1: "length [[5], [6], [7 :: real]] = 4 - 1 \<and> length [[0], [0], [0], [0 :: real]] = 4
              \<and> length [[1], [2], [3], [4 :: real]] = 4"
    by simp
  have p2: "has_shape 1 (4 - 1) 1 [[[5], [6], [7]]]" by (simp add: has_shape_def)
  have p3: "length [[1], [2], [3], [4 :: real]] = 4" by simp
  show ?thesis using t p1 p2 p3 h1 h3 by blast
qed

section \<open>The bipartite merge by groups\<close>

lemma group_of_map: "group_of j index (map f src) = map f (group_of j index src)"
proof -
  have "zip index (map f src) = map (\<lambda>p. (fst p, f (snd p))) (zip index src)"
    by (simp add: zip_map2 case_prod_beta)
  then show ?thesis by (simp add: group_of_def filter_map comp_def)
qed

lemma map_cat_distill: "map f (cat_distill u d) = cat_distill (map f u) (map f d)"
  by (simp add: cat_distill_def take_map drop_map)

lemma bipartite_merge1_groups:
  assumes v: "bsm_valid t r ix" and x: "length x = t"
  shows "bipartite_merge1 dt ix x mode = merge_by_groups (bsm_groups dt t ix) x mode"
proof -
  let ?ev = "evens x" and ?od = "odds x"
  let ?red = "\<lambda>g. reduce_rows mode (x ! hd g) (map ((!) x) (tl g))"
  have rng: "set (unm_idx ix) \<union> set (src_idx ix) = {0..<length ?ev}"
    using bsm_valid_unm_set [OF v] x by (simp add: length_evens)
  have ev: "?ev ! i = x ! (2 * i)" if "i \<in> set (unm_idx ix) \<union> set (src_idx ix)" for i
    using that rng by (intro evens_nth) auto
  have u: "gather ?ev (unm_idx ix) = map ?red (map (\<lambda>u. [2 * u]) (unm_idx ix))"
    using ev by (simp add: gather_def reduce_rows_Nil)
  have g: "map ((!) ?ev) (group_of j (dst_idx ix) (src_idx ix))
             = map ((!) x) (map (\<lambda>i. 2 * i) (group_of j (dst_idx ix) (src_idx ix)))" for j
    using ev set_group_of [of j "dst_idx ix" "src_idx ix"] by auto
  have d: "scatter_reduce ?od (dst_idx ix) (gather ?ev (src_idx ix)) mode
             = map ?red (map (\<lambda>j. (2 * j + 1) # map (\<lambda>i. 2 * i) (group_of j (dst_idx ix) (src_idx ix)))
                  [0..<t div 2])"
    using x by (simp add: scatter_reduce_def gather_def group_of_map g length_odds odds_nth)
  show ?thesis
    by (simp only: bipartite_merge1_def bsm_groups_def merge_by_groups_def Let_def u d
        map_cat_distill map_append split: if_split) simp
qed

lemma filter_mset_fst_less:
  "(\<Sum>j\<leftarrow>[0..<n]. filter_mset (\<lambda>p. fst p = j) M) = filter_mset (\<lambda>p. fst p < n) M"
proof (induction n)
  case 0
  then show ?case by simp
next
  case (Suc n)
  have "filter_mset (\<lambda>p. fst p < n) M + filter_mset (\<lambda>p. fst p = n) M
          = filter_mset (\<lambda>p. fst p < Suc n) M"
    by (rule multiset_eqI) auto
  then show ?case using Suc by simp
qed

lemma mset_concat_group_of:
  assumes "length index = length src" "\<forall>d\<in>set index. d < n"
  shows "mset (concat (map (\<lambda>j. group_of j index src) [0..<n])) = mset src"
proof -
  let ?M = "mset (zip index src)"
  have a: "mset (group_of j index src) = image_mset snd (filter_mset (\<lambda>p. fst p = j) ?M)" for j
    by (simp add: group_of_def flip: mset_filter mset_map)
  have "mset (concat (map (\<lambda>j. group_of j index src) [0..<n]))
          = (\<Sum>j\<leftarrow>[0..<n]. image_mset snd (filter_mset (\<lambda>p. fst p = j) ?M))"
    by (simp add: mset_concat comp_def a)
  also have "\<dots> = image_mset snd (\<Sum>j\<leftarrow>[0..<n]. filter_mset (\<lambda>p. fst p = j) ?M)"
    by (induction n) simp_all
  also have "\<dots> = image_mset snd (filter_mset (\<lambda>p. fst p < n) ?M)"
    by (simp only: filter_mset_fst_less)
  also have "filter_mset (\<lambda>p. fst p < n) ?M = ?M"
    using assms(2) by (auto simp: filter_mset_eq_conv dest: set_zip_leftD)
  also have "image_mset snd ?M = mset src"
    using assms(1) by (simp flip: mset_map)
  finally show ?thesis .
qed

lemma mset_cat_distill: "mset (cat_distill u d) = mset u + mset d"
  by (cases u; cases d) (simp_all add: cat_distill_def)

lemma mset_concat_cat_distill:
  "mset (concat (cat_distill u d)) = mset (concat u) + mset (concat d)"
  by (cases u; cases d) (simp_all add: cat_distill_def)

lemma mset_concat_bsm_groups:
  assumes v: "bsm_valid t r ix"
  shows "mset (concat (bsm_groups dt t ix)) = mset [0..<t]"
proof -
  let ?unm = "map (\<lambda>u. [2 * u]) (unm_idx ix)"
  let ?grp = "\<lambda>j. group_of j (dst_idx ix) (src_idx ix)"
  let ?dst = "map (\<lambda>j. (2 * j + 1) # map (\<lambda>i. 2 * i) (?grp j)) [0..<t div 2]"
  have li: "length (dst_idx ix) = length (src_idx ix)" "\<forall>d\<in>set (dst_idx ix). d < t div 2"
    using v by (simp_all add: bsm_valid_def list_all_iff)
  have u: "mset (concat ?unm) = mset (map (\<lambda>i. 2 * i) (unm_idx ix))"
    by (induction "unm_idx ix") simp_all
  have "mset (concat (map (\<lambda>j. (2 * j + 1) # map (\<lambda>i. 2 * i) (?grp j)) [0..<n]))
          = mset (map (\<lambda>j. 2 * j + 1) [0..<n])
          + image_mset (\<lambda>i. 2 * i) (mset (concat (map ?grp [0..<n])))" for n
    by (induction n) simp_all
  then have d: "mset (concat ?dst) = mset (map (\<lambda>j. 2 * j + 1) [0..<t div 2])
                  + mset (map (\<lambda>i. 2 * i) (src_idx ix))"
    by (simp only: mset_concat_group_of [OF li] mset_map)
  have "mset (concat (bsm_groups dt t ix)) = mset (concat ?unm) + mset (concat ?dst)"
    by (cases dt) (simp_all only: bsm_groups_def Let_def mset_concat_cat_distill concat_append
        mset_append if_True if_False)
  also have "\<dots> = mset (map (\<lambda>i. 2 * i) (unm_idx ix))
                      + (mset (map (\<lambda>j. 2 * j + 1) [0..<t div 2]) + mset (map (\<lambda>i. 2 * i) (src_idx ix)))"
    by (simp only: u d)
  also have "\<dots> = mset (unmerge_targets (t div 2) ix)"
    unfolding unmerge_targets_def mset_append by (rule add.left_commute)
  finally show ?thesis by (simp only: mset_unmerge_targets [OF v])
qed

lemma length_bsm_groups:
  assumes v: "bsm_valid t r ix"
  shows "length (bsm_groups dt t ix) = t - r"
  using bsm_valid_lengths [OF v]
  by (simp add: bsm_groups_def Let_def length_cat_distill)

lemma bsm_groups_ok:
  assumes v: "bsm_valid t r ix"
  shows "groups_ok t (bsm_groups dt t ix)"
proof -
  have "set (concat (bsm_groups dt t ix)) = set [0..<t]"
    using mset_concat_bsm_groups [OF v, of dt] by (rule mset_eq_setD)
  then have a: "\<forall>g\<in>set (bsm_groups dt t ix). \<forall>i\<in>set g. i < t" by auto
  have b: "\<forall>g\<in>set (bsm_groups dt t ix). g \<noteq> []"
    by (auto simp: bsm_groups_def Let_def set_cat_distill)
  show ?thesis using a b by (simp add: groups_ok_def list_all_iff)
qed

section \<open>Reductions over groups\<close>

lemma length_merge_by_groups [simp]: "length (merge_by_groups G x mode) = length G"
  by (simp add: merge_by_groups_def)

lemma groups_ok_nth:
  assumes "groups_ok N G" "j < length G"
  shows "G ! j \<noteq> []" and "\<forall>i\<in>set (G ! j). i < N"
  using assms nth_mem [of j G] by (auto simp: groups_ok_def list_all_iff)

lemma merge_by_groups_rows:
  assumes "groups_ok N G" "length x = N" "\<forall>v\<in>set x. length v = C"
  shows "\<forall>v\<in>set (merge_by_groups G x mode). length v = C"
proof
  fix v assume "v \<in> set (merge_by_groups G x mode)"
  then obtain g where g: "g \<in> set G" and v: "v = reduce_rows mode (x ! hd g) (map ((!) x) (tl g))"
    by (auto simp: merge_by_groups_def)
  have ne: "g \<noteq> []" and lt: "\<forall>i\<in>set g. i < N"
    using assms(1) g by (simp_all add: groups_ok_def list_all_iff)
  have h: "hd g < N" using ne lt by simp
  have t: "\<forall>i\<in>set (tl g). i < N" using ne lt by (metis list.set_sel(2))
  have lh: "length (x ! hd g) = C" using h assms(2,3) by simp
  have "\<forall>u\<in>set (map ((!) x) (tl g)). length u = length (x ! hd g)"
    using t lh assms(2,3) by simp
  then show "length v = C" unfolding v using lh by (simp add: length_reduce_rows)
qed

lemma foldl_add_nth:
  fixes d :: vec
  assumes "\<forall>g\<in>set grp. length g = length d" "k < length d"
  shows "foldl (map2 (+)) d grp ! k = d ! k + (\<Sum>g\<leftarrow>grp. g ! k)"
  using assms
proof (induction grp arbitrary: d)
  case Nil
  then show ?case by simp
next
  case (Cons g grp)
  have l: "length (map2 (+) d g) = length d" using Cons.prems(1) by simp
  have "foldl (map2 (+)) (map2 (+) d g) grp ! k = map2 (+) d g ! k + (\<Sum>g\<leftarrow>grp. g ! k)"
    using Cons.prems l by (intro Cons.IH) simp_all
  then show ?case using Cons.prems by simp
qed

lemma reduce_rows_sum_nth:
  assumes "\<forall>g\<in>set grp. length g = length d" "k < length d"
  shows "reduce_rows ModeSum d grp ! k = d ! k + (\<Sum>g\<leftarrow>grp. g ! k)"
  using foldl_add_nth [OF assms] by (simp add: reduce_rows_def)

lemma group_sum:
  assumes ne: "g \<noteq> []" and lt: "\<forall>i\<in>set g. i < length x" and rows: "\<forall>v\<in>set x. length v = C"
    and k: "k < C"
  shows "reduce_rows ModeSum (x ! hd g) (map ((!) x) (tl g)) ! k = (\<Sum>i\<leftarrow>g. x ! i ! k)"
proof -
  obtain h t where g: "g = h # t" using ne by (cases g) auto
  have lh: "length (x ! h) = C" using lt rows g by simp
  have "\<forall>u\<in>set (map ((!) x) t). length u = length (x ! h)" using lt rows g lh by simp
  then have "reduce_rows ModeSum (x ! h) (map ((!) x) t) ! k
               = x ! h ! k + (\<Sum>u\<leftarrow>map ((!) x) t. u ! k)"
    using k lh by (intro reduce_rows_sum_nth) simp_all
  then show ?thesis by (simp add: g comp_def)
qed

lemma merge_by_groups_sum_nth:
  assumes "groups_ok N G" "length x = N" "\<forall>v\<in>set x. length v = C" "j < length G" "k < C"
  shows "merge_by_groups G x ModeSum ! j ! k = (\<Sum>i\<leftarrow>G ! j. x ! i ! k)"
proof -
  have "reduce_rows ModeSum (x ! hd (G ! j)) (map ((!) x) (tl (G ! j))) ! k = (\<Sum>i\<leftarrow>G ! j. x ! i ! k)"
    using groups_ok_nth [OF assms(1,4)] assms(2,3,5) by (intro group_sum) simp_all
  then show ?thesis using assms(4) by (simp add: merge_by_groups_def)
qed

lemma sum_list_mset_cong:
  fixes f :: "nat \<Rightarrow> real"
  assumes "mset xs = mset ys"
  shows "(\<Sum>i\<leftarrow>xs. f i) = (\<Sum>i\<leftarrow>ys. f i)"
proof -
  have "mset (map f xs) = mset (map f ys)" using assms by simp
  then show ?thesis by (metis sum_mset_sum_list)
qed

lemma sum_list_nth_upt:
  fixes f :: "'a \<Rightarrow> real"
  shows "(\<Sum>i\<leftarrow>[0..<length x]. f (x ! i)) = (\<Sum>v\<leftarrow>x. f v)"
proof -
  have "map (\<lambda>i. f (x ! i)) [0..<length x] = map f (map ((!) x) [0..<length x])" by simp
  then show ?thesis by (simp only: map_nth)
qed

lemma sum_list_concat_map:
  fixes f :: "nat \<Rightarrow> real"
  shows "(\<Sum>g\<leftarrow>G. \<Sum>i\<leftarrow>g. f i) = (\<Sum>i\<leftarrow>concat G. f i)"
  by (induction G) simp_all

lemma sum_merge_by_groups:
  assumes ok: "groups_ok N G" and lx: "length x = N" and rows: "\<forall>v\<in>set x. length v = C"
    and k: "k < C"
  shows "(\<Sum>row\<leftarrow>merge_by_groups G x ModeSum. row ! k) = (\<Sum>i\<leftarrow>concat G. x ! i ! k)"
proof -
  have e: "reduce_rows ModeSum (x ! hd g) (map ((!) x) (tl g)) ! k = (\<Sum>i\<leftarrow>g. x ! i ! k)"
    if "g \<in> set G" for g
    using that ok lx rows k by (intro group_sum) (simp_all add: groups_ok_def list_all_iff)
  have "(\<Sum>row\<leftarrow>merge_by_groups G x ModeSum. row ! k) = (\<Sum>g\<leftarrow>G. \<Sum>i\<leftarrow>g. x ! i ! k)"
    using e by (simp add: merge_by_groups_def comp_def cong: map_cong)
  also have "\<dots> = (\<Sum>i\<leftarrow>concat G. x ! i ! k)"
    by (rule sum_list_concat_map)
  finally show ?thesis .
qed

lemma sum_merge_by_groups_partition:
  assumes ok: "groups_ok N G" and lx: "length x = N" and rows: "\<forall>v\<in>set x. length v = C"
    and k: "k < C" and p: "mset (concat G) = mset [0..<N]"
  shows "(\<Sum>row\<leftarrow>merge_by_groups G x ModeSum. row ! k) = (\<Sum>row\<leftarrow>x. row ! k)"
proof -
  have "(\<Sum>i\<leftarrow>concat G. x ! i ! k) = (\<Sum>i\<leftarrow>[0..<length x]. x ! i ! k)"
    using p lx by (intro sum_list_mset_cong) simp
  also have "\<dots> = (\<Sum>row\<leftarrow>x. row ! k)" by (rule sum_list_nth_upt)
  finally show ?thesis using sum_merge_by_groups [OF ok lx rows k] by simp
qed

lemma merge_by_groups_singletons:
  "merge_by_groups (map (\<lambda>i. [i]) [0..<length x]) x mode = x"
  by (simp add: merge_by_groups_def comp_def reduce_rows_Nil map_nth)

section \<open>The groups of the bipartite merge\<close>

lemma bipartite_groups_void:
  assumes "min r ((int (shape1 metric) - ((if ct then 1 else 0) + (if dt then 1 else 0))) div 2) \<le> 0"
  shows "bipartite_groups metric r ct dt = map (\<lambda>m. map (\<lambda>i. [i]) [0..<shape1 metric]) metric"
  using assms by (simp add: bipartite_groups_def Let_def)

lemma bipartite_groups_built:
  assumes "0 < min r ((int (shape1 metric) - ((if ct then 1 else 0) + (if dt then 1 else 0))) div 2)"
  shows "bipartite_groups metric r ct dt =
     map (\<lambda>m. bsm_groups dt (shape1 metric)
            (bsm_indices ct dt (nat (min r ((int (shape1 metric)
                - ((if ct then 1 else 0) + (if dt then 1 else 0))) div 2))) m)) metric"
proof -
  have "\<not> min r ((int (shape1 metric) - ((if ct then 1 else 0) + (if dt then 1 else 0))) div 2) \<le> 0"
    using assms by linarith
  then show ?thesis unfolding bipartite_groups_def Let_def by (simp only: if_False)
qed

lemma groups_ok_singletons: "groups_ok N (map (\<lambda>i. [i]) [0..<N])"
  by (simp add: groups_ok_def list_all_iff)

lemma concat_singletons: "concat (map (\<lambda>i. [i]) xs) = xs"
  by (induction xs) simp_all

lemma bipartite_groups_props:
  fixes r :: int and ct dt :: bool and N :: nat
  assumes m: "has_shape B N C metric"
  defines "rc \<equiv> min r ((int N - ((if ct then 1 else 0) + (if dt then 1 else 0))) div 2)"
  shows "length (bipartite_groups metric r ct dt) = B"
    and "\<forall>G\<in>set (bipartite_groups metric r ct dt).
           length G = N - nat rc \<and> groups_ok N G \<and> mset (concat G) = mset [0..<N]"
proof -
  have lm: "length metric = B" using m by (simp add: has_shape_iff)
  show "length (bipartite_groups metric r ct dt) = B"
    using lm by (simp add: bipartite_groups_def Let_def)
  show "\<forall>G\<in>set (bipartite_groups metric r ct dt).
           length G = N - nat rc \<and> groups_ok N G \<and> mset (concat G) = mset [0..<N]"
  proof (cases "B = 0")
    case True
    then show ?thesis using lm by (simp add: bipartite_groups_def Let_def)
  next
    case False
    then have s1: "shape1 metric = N" using m by (simp add: has_shape_shape1)
    show ?thesis
    proof (cases "rc \<le> 0")
      case True
      then have "bipartite_groups metric r ct dt = map (\<lambda>m. map (\<lambda>i. [i]) [0..<N]) metric"
        unfolding rc_def using s1 bipartite_groups_void [of r metric ct dt] by simp
      then show ?thesis using True by (auto simp: groups_ok_singletons concat_singletons)
    next
      case False
      then have pos: "0 < rc" by simp
      have p0: "(0::int) \<le> (if ct then 1 else 0) + (if dt then 1 else 0)" by simp
      have b1: "nat rc \<le> (N + 1) div 2" and b2: "2 \<le> N"
        using clamp_bounds [OF pos [unfolded rc_def] p0] by (simp_all add: rc_def)
      have e: "bipartite_groups metric r ct dt
                 = map (\<lambda>m. bsm_groups dt N (bsm_indices ct dt (nat rc) m)) metric"
        using bipartite_groups_built [of r metric ct dt] pos by (simp add: s1 rc_def)
      show ?thesis
      proof
        fix G assume "G \<in> set (bipartite_groups metric r ct dt)"
        then obtain mm where mm: "mm \<in> set metric"
          and G: "G = bsm_groups dt N (bsm_indices ct dt (nat rc) mm)"
          unfolding e by auto
        have "length mm = N" using mm m by (simp add: has_shape_iff)
        then have v: "bsm_valid N (nat rc) (bsm_indices ct dt (nat rc) mm)"
          using bsm_indices_valid [of "nat rc" mm ct dt] b1 b2 by simp
        show "length G = N - nat rc \<and> groups_ok N G \<and> mset (concat G) = mset [0..<N]"
          unfolding G
          using length_bsm_groups [OF v] bsm_groups_ok [OF v] mset_concat_bsm_groups [OF v]
          by simp
      qed
    qed
  qed
qed

lemma map2_map_cong:
  assumes "\<And>m xb. (m, xb) \<in> set (zip ms xs) \<Longrightarrow> f (g m) xb = f' (g' m) xb"
  shows "map2 f (map g ms) xs = map2 f' (map g' ms) xs"
  using assms by (simp add: zip_map1 case_prod_beta)

lemma bipartite_merge_by_groups:
  fixes r :: int and ct dt :: bool and N :: nat
  assumes m: "has_shape B N C metric" and x: "has_shape B N C' x"
  shows "fst (bipartite_soft_matching metric r ct dt) x mode
           = Some (map2 (\<lambda>G xb. merge_by_groups G xb mode) (bipartite_groups metric r ct dt) x)"
proof (cases "B = 0")
  case True
  then have e: "metric = []" "x = []" using m x by (simp_all add: has_shape_iff)
  have "min r ((int (shape1 metric) - ((if ct then 1 else 0) + (if dt then 1 else 0))) div 2) \<le> 0"
    by (simp add: e shape1_def min_def)
  then have "bipartite_soft_matching metric r ct dt = do_nothing_pair"
    by (rule bipartite_soft_matching_void)
  then show ?thesis using e by (simp add: do_nothing_pair_def do_nothing_def)
next
  case False
  then have s1: "shape1 metric = N" using m by (simp add: has_shape_shape1)
  have lm: "length metric = B" and lx: "length x = B"
    using m x by (simp_all add: has_shape_iff)
  define rc where "rc = min r ((int N - ((if ct then 1 else 0) + (if dt then 1 else 0))) div 2)"
  show ?thesis
  proof (cases "rc \<le> 0")
    case True
    have c: "bipartite_soft_matching metric r ct dt = do_nothing_pair"
      by (rule bipartite_soft_matching_void [of r metric ct dt, unfolded s1, folded rc_def, OF True])
    have g: "bipartite_groups metric r ct dt = map (\<lambda>m. map (\<lambda>i. [i]) [0..<N]) metric"
      by (rule bipartite_groups_void [of r metric ct dt, unfolded s1, folded rc_def, OF True])
    have "map2 (\<lambda>G xb. merge_by_groups G xb mode) (map (\<lambda>m. map (\<lambda>i. [i]) [0..<N]) metric) x
            = map2 (\<lambda>G xb. xb) (map (\<lambda>m. m) metric) x"
    proof (rule map2_map_cong)
      fix mm xb assume "(mm, xb) \<in> set (zip metric x)"
      then have "xb \<in> set x" by (rule set_zip_rightD)
      then have "length xb = N" using x by (simp add: has_shape_iff)
      then show "merge_by_groups (map (\<lambda>i. [i]) [0..<N]) xb mode = xb"
        using merge_by_groups_singletons [of xb mode] by simp
    qed
    also have "\<dots> = map snd (zip metric x)" by (simp add: case_prod_beta)
    also have "\<dots> = x" using lm lx by (simp add: map_snd_zip)
    finally show ?thesis by (simp add: c g do_nothing_pair_def do_nothing_def)
  next
    case False
    then have pos: "0 < rc" by simp
    have p0: "(0::int) \<le> (if ct then 1 else 0) + (if dt then 1 else 0)" by simp
    have b1: "nat rc \<le> (N + 1) div 2" and b2: "2 \<le> N"
      using clamp_bounds [OF pos [unfolded rc_def] p0] by (simp_all only: rc_def)
    let ?ixs = "map (bsm_indices ct dt (nat rc)) metric"
    have c: "fst (bipartite_soft_matching metric r ct dt) = bipartite_merge N dt ?ixs"
      by (simp only: bipartite_soft_matching_built [of r metric ct dt, unfolded s1 Let_def,
            folded rc_def, OF pos] fst_conv)
    have g: "bipartite_groups metric r ct dt
               = map (\<lambda>m. bsm_groups dt N (bsm_indices ct dt (nat rc) m)) metric"
      by (rule bipartite_groups_built [of r metric ct dt, unfolded s1, folded rc_def, OF pos])
    have gd: "has_shape (length ?ixs) N (shape2 x) x"
      using has_shape_shape2 [OF x] lm by simp
    have e: "bipartite_merge N dt ?ixs x mode
               = Some (map2 (\<lambda>ix xb. bipartite_merge1 dt ix xb mode) ?ixs x)"
      using gd by (simp only: bipartite_merge_def if_True)
    have "map2 (\<lambda>ix xb. bipartite_merge1 dt ix xb mode) (map (bsm_indices ct dt (nat rc)) metric) x
            = map2 (\<lambda>G xb. merge_by_groups G xb mode)
                (map (\<lambda>m. bsm_groups dt N (bsm_indices ct dt (nat rc) m)) metric) x"
    proof (rule map2_map_cong)
      fix mm xb assume z: "(mm, xb) \<in> set (zip metric x)"
      have "mm \<in> set metric" using z by (rule set_zip_leftD)
      then have "length mm = N" using m by (simp add: has_shape_iff)
      then have v: "bsm_valid N (nat rc) (bsm_indices ct dt (nat rc) mm)"
        using bsm_indices_valid [of "nat rc" mm ct dt] b1 b2 by simp
      have "xb \<in> set x" using z by (rule set_zip_rightD)
      then have "length xb = N" using x by (simp add: has_shape_iff)
      then show "bipartite_merge1 dt (bsm_indices ct dt (nat rc) mm) xb mode
                   = merge_by_groups (bsm_groups dt N (bsm_indices ct dt (nat rc) mm)) xb mode"
        using v by (intro bipartite_merge1_groups)
    qed
    then show ?thesis by (simp only: c e g)
  qed
qed

end
